theory Spec2Isabelle
  imports
    Complex_Main
    "HOL-Library.Char_ord"
    "HOL-Library.List_Lexorder"
    "HOL-Library.Multiset"
    "HOL-Library.Sublist"
begin

section \<open>Data model of \<^verbatim>\<open>app.py\<close>\<close>

text \<open>
  The script works on one pandas table. A cell that pandas shows as NaN or NaT is
  \<open>None\<close>. A timestamp is the integer pandas stores for it (nanoseconds since the epoch);
  a date cell carries the value \<^verbatim>\<open>pd.to_datetime(..., errors='coerce')\<close> gives it, so text
  that does not parse is \<open>None\<close>. Text with a UTC offset parses to a column that carries a
  time zone (\<^verbatim>\<open>datetime64[ns, tz]\<close>); the table records this for each of its two date
  columns, as it decides whether the column can be compared with a bound that has no
  zone. AQI readings are real numbers: the rounding of binary floating point is not
  modelled, the missing value is.

  City names are byte strings ordered as Python orders \<^verbatim>\<open>str\<close>: character by character.
\<close>

type_synonym timestamp = int

record row =
  City :: "string option"
  Datetime :: "timestamp option"
  Date :: "timestamp option"
  AQI :: "real option"

record frame =
  columns :: "string list"
  Datetime_tz :: bool
  Date_tz :: bool
  rows :: "row list"

datatype error = LoadError | KeyError | IndexError | TypeError

text \<open>What \<^verbatim>\<open>pd.read_csv("city_day.csv")\<close> did: it raised, or it returned a table.\<close>

datatype csv_read = Raised | Read frame

section \<open>Alert bands (lines 165 to 172)\<close>

datatype AlertLevel = Good | Moderate | Poor | Severe

text \<open>\<^verbatim>\<open>latest_aqi <= c\<close> on a float: every comparison with NaN is false.\<close>

fun le_float :: "real option \<Rightarrow> real \<Rightarrow> bool" where
  "le_float None c = False"
| "le_float (Some x) c = (x \<le> c)"

definition classify :: "real option \<Rightarrow> AlertLevel" where
  "classify latest_aqi =
     (if le_float latest_aqi 50 then Good
      else if le_float latest_aqi 100 then Moderate
      else if le_float latest_aqi 200 then Poor
      else Severe)"

section \<open>Loading and cleaning (lines 47 to 63)\<close>

text \<open>
  Lines 57 to 60: the \<^verbatim>\<open>Date\<close> column becomes the parsed \<^verbatim>\<open>Datetime\<close> column when there is
  one, the parsed \<^verbatim>\<open>Date\<close> column otherwise; with neither, \<^verbatim>\<open>df['Date']\<close> raises KeyError.
  Assigning to \<^verbatim>\<open>df['Date']\<close> adds the column when the table has none, and the column
  has a time zone when the column it was parsed from has one.
\<close>

definition assign_Date :: "(row \<Rightarrow> timestamp option) \<Rightarrow> bool \<Rightarrow> frame \<Rightarrow> frame" where
  "assign_Date col tz df =
     df\<lparr>columns := (if ''Date'' \<in> set (columns df) then columns df else columns df @ [''Date'']),
        Date_tz := tz,
        rows := map (\<lambda>r. r\<lparr>Date := col r\<rparr>) (rows df)\<rparr>"

definition parse_dates :: "frame \<Rightarrow> error + frame" where
  "parse_dates df =
     (if ''Datetime'' \<in> set (columns df) then Inr (assign_Date Datetime (Datetime_tz df) df)
      else if ''Date'' \<in> set (columns df) then Inr (assign_Date Date (Date_tz df) df)
      else Inl KeyError)"

text \<open>Line 62: \<^verbatim>\<open>df.dropna(subset=['City', 'Date'])\<close>; a missing column raises KeyError.\<close>

definition dropna :: "frame \<Rightarrow> error + frame" where
  "dropna df =
     (if ''City'' \<in> set (columns df) \<and> ''Date'' \<in> set (columns df)
      then Inr (df\<lparr>rows := filter (\<lambda>r. City r \<noteq> None \<and> Date r \<noteq> None) (rows df)\<rparr>)
      else Inl KeyError)"

text \<open>
  Line 63: \<^verbatim>\<open>df.sort_values(by='Date')\<close>. The sort enters the loader as the parameter
  \<open>srt\<close>; the sort pandas runs is \<open>sort_values\<close>, defined further down. \<open>date_le\<close> is the
  order it sorts by: ascending \<^verbatim>\<open>Date\<close>, NaT last.
\<close>

definition date_le :: "row \<Rightarrow> row \<Rightarrow> bool" where
  "date_le a b =
     (case Date b of None \<Rightarrow> True
      | Some y \<Rightarrow> (case Date a of None \<Rightarrow> False | Some x \<Rightarrow> x \<le> y))"

definition load :: "(row list \<Rightarrow> row list) \<Rightarrow> csv_read \<Rightarrow> error + frame" where
  "load srt src =
     (case src of
        Raised \<Rightarrow> Inl LoadError
      | Read df \<Rightarrow>
          (case parse_dates df of
             Inl e \<Rightarrow> Inl e
           | Inr df1 \<Rightarrow>
               (case dropna df1 of
                  Inl e \<Rightarrow> Inl e
                | Inr df2 \<Rightarrow> Inr (df2\<lparr>rows := srt (rows df2)\<rparr>))))"

text \<open>
  An insertion sort by \<open>date_le\<close> that leaves rows of equal \<^verbatim>\<open>Date\<close> in input order, which
  is what \<^verbatim>\<open>kind='stable'\<close> asks of \<^verbatim>\<open>sort_values\<close>.
\<close>

fun insort_Date :: "row \<Rightarrow> row list \<Rightarrow> row list" where
  "insort_Date r [] = [r]"
| "insort_Date r (x # xs) = (if date_le r x then r # x # xs else x # insort_Date r xs)"

definition stable_sort_Date :: "row list \<Rightarrow> row list" where
  "stable_sort_Date xs = foldr insort_Date xs []"

section \<open>The sort of line 63\<close>

text \<open>
  \<^verbatim>\<open>sort_values(by='Date')\<close> names no \<^verbatim>\<open>kind\<close>. For a single column pandas then calls
  \<^verbatim>\<open>nargsort\<close>, which sorts the values that are not NaT with numpy's
  \<^verbatim>\<open>argsort(kind='quicksort')\<close> and puts the rows with NaT after them, in input order. For
  \<^verbatim>\<open>datetime64\<close> values numpy's argsort is the routine \<^verbatim>\<open>aquicksort_\<close> of
  \<^verbatim>\<open>npysort/quicksort.cpp\<close>: a quicksort with a median-of-three pivot on segments of more
  than 17 elements, an insertion sort on shorter segments, and \<^verbatim>\<open>aheapsort_\<close> on a segment
  taken from the stack after the depth budget, twice the position of the highest bit of
  the length, is used up.

  The functions below follow that routine step by step. They permute the list of rows
  where numpy permutes the array of row numbers; \<open>k\<close> is the key \<^verbatim>\<open>v[...]\<close>, and positions
  count from the start of the segment, so \<^verbatim>\<open>pl\<close> is 0 and \<^verbatim>\<open>pr\<close> is the length less 1.
\<close>

text \<open>
  \<^verbatim>\<open>INTP_SWAP\<close>, the guarded swap \<^verbatim>\<open>if (less(v[*a], v[*b])) INTP_SWAP(*a, *b)\<close>, and the three
  guarded swaps that order the first, middle and last element of a segment.
\<close>

definition swap_at :: "'a list \<Rightarrow> nat \<Rightarrow> nat \<Rightarrow> 'a list" where
  "swap_at xs i j = xs[i := xs ! j, j := xs ! i]"

definition cswap :: "('a \<Rightarrow> int) \<Rightarrow> 'a list \<Rightarrow> nat \<Rightarrow> nat \<Rightarrow> 'a list" where
  "cswap k xs i j = (if k (xs ! i) < k (xs ! j) then swap_at xs i j else xs)"

definition med3 :: "('a \<Rightarrow> int) \<Rightarrow> 'a list \<Rightarrow> 'a list" where
  "med3 k xs =
     (let pr = length xs - 1; pm = pr div 2
      in cswap k (cswap k (cswap k xs pm 0) pr pm) pm 0)"

text \<open>
  The two inner loops of the partition: \<^verbatim>\<open>do ++pi while (less(v[*pi], vp))\<close> and
  \<^verbatim>\<open>do --pj while (less(vp, v[*pj]))\<close>, entered after the first step. The C loops carry no
  bound; they stop at the pivot stored before the last element and at the first element.
  The bounds written here are for termination of the definition only.
\<close>

function scan_up :: "('a \<Rightarrow> int) \<Rightarrow> int \<Rightarrow> 'a list \<Rightarrow> nat \<Rightarrow> nat" where
  "scan_up k vp xs i =
     (if i < length xs \<and> k (xs ! i) < vp then scan_up k vp xs (Suc i) else i)"
  by pat_completeness auto
termination
  by (relation "measure (\<lambda>(k, vp, xs, i). length xs - i)") auto

declare scan_up.simps [simp del]

fun scan_down :: "('a \<Rightarrow> int) \<Rightarrow> int \<Rightarrow> 'a list \<Rightarrow> nat \<Rightarrow> nat" where
  "scan_down k vp xs 0 = 0"
| "scan_down k vp xs (Suc j) =
     (if vp < k (xs ! Suc j) then scan_down k vp xs j else Suc j)"

lemma scan_up_step:
  "i < length xs \<Longrightarrow> k (xs ! i) < vp \<Longrightarrow> scan_up k vp xs i = scan_up k vp xs (Suc i)"
  by (subst scan_up.simps) simp

lemma scan_up_stop:
  "\<not> (i < length xs \<and> k (xs ! i) < vp) \<Longrightarrow> scan_up k vp xs i = i"
  by (subst scan_up.simps) auto

lemma scan_up_ge: "i \<le> scan_up k vp xs i"
proof (induction k vp xs i rule: scan_up.induct)
  case (1 k vp xs i)
  show ?case
  proof (cases "i < length xs \<and> k (xs ! i) < vp")
    case True
    with 1 have "Suc i \<le> scan_up k vp xs (Suc i)" by simp
    with True show ?thesis by (simp add: scan_up_step)
  next
    case False
    then show ?thesis by (simp add: scan_up_stop)
  qed
qed

lemma scan_down_le: "scan_down k vp xs j \<le> j"
  by (induction j) auto

text \<open>
  The loop \<^verbatim>\<open>for (;;)\<close> of the partition, and the partition itself: the pivot is the middle
  element after the three guarded swaps, it is parked at \<^verbatim>\<open>pr - 1\<close>, the loop runs from
  \<^verbatim>\<open>pl\<close> and \<^verbatim>\<open>pr - 1\<close>, and the pivot is swapped to where the loop ended. The result is the
  segment and the position of the pivot.
\<close>

function part_loop :: "('a \<Rightarrow> int) \<Rightarrow> int \<Rightarrow> 'a list \<Rightarrow> nat \<Rightarrow> nat \<Rightarrow> 'a list \<times> nat" where
  "part_loop k vp xs p_i p_j =
     (let p_i' = scan_up k vp xs (Suc p_i); p_j' = scan_down k vp xs (p_j - 1)
      in if p_i' \<ge> p_j' then (xs, p_i') else part_loop k vp (swap_at xs p_i' p_j') p_i' p_j')"
  by pat_completeness auto
termination
proof (relation "measure (\<lambda>(k, vp, xs, p_i, p_j). p_j - p_i)", goal_cases)
  case 1
  then show ?case by simp
next
  case (2 k vp xs p_i p_j p_i' p_j')
  have "Suc p_i \<le> p_i'" using 2(1) scan_up_ge [of "Suc p_i" k vp xs] by simp
  moreover have "p_j' \<le> p_j - 1" using 2(2) scan_down_le [of k vp xs "p_j - 1"] by simp
  ultimately show ?case using 2(3) by simp
qed

declare part_loop.simps [simp del]

definition partition_step :: "('a \<Rightarrow> int) \<Rightarrow> 'a list \<Rightarrow> 'a list \<times> nat" where
  "partition_step k xs =
     (let pr = length xs - 1; pm = pr div 2;
          ys = med3 k xs; vp = k (ys ! pm);
          zs = swap_at ys pm (pr - 1);
          (ws, p_i) = part_loop k vp zs 0 (pr - 1)
      in (swap_at ws p_i (pr - 1), p_i))"

text \<open>
  The insertion sort at the end of \<^verbatim>\<open>aquicksort_\<close>: each element moves left past the
  elements whose key is greater. \<open>ins_back\<close> works on the sorted part in reverse.
\<close>

fun ins_back :: "('a \<Rightarrow> int) \<Rightarrow> 'a \<Rightarrow> 'a list \<Rightarrow> 'a list" where
  "ins_back k x [] = [x]"
| "ins_back k x (y # ys) = (if k x < k y then y # ins_back k x ys else x # y # ys)"

definition insertion_sort :: "('a \<Rightarrow> int) \<Rightarrow> 'a list \<Rightarrow> 'a list" where
  "insertion_sort k xs = rev (foldl (\<lambda>acc x. ins_back k x acc) [] xs)"

text \<open>
  \<^verbatim>\<open>aheapsort_\<close>. The array is addressed from 1, so \<^verbatim>\<open>a[j]\<close> is \<open>a ! (j - 1)\<close>. \<open>sift\<close> is the
  inner loop that moves \<^verbatim>\<open>tmp\<close> down from position \<open>i\<close> with \<open>j\<close> its first child,
  \<open>heapify\<close> the first outer loop, \<open>sortdown\<close> the second.
\<close>

function sift :: "('a \<Rightarrow> int) \<Rightarrow> nat \<Rightarrow> 'a \<Rightarrow> 'a list \<Rightarrow> nat \<Rightarrow> nat \<Rightarrow> 'a list" where
  "sift k n tmp a i j =
     (if 0 < j \<and> j \<le> n
      then (let j1 = (if j < n \<and> k (a ! (j - 1)) < k (a ! j) then j + 1 else j)
            in if k tmp < k (a ! (j1 - 1))
               then sift k n tmp (a[i - 1 := a ! (j1 - 1)]) j1 (j1 + j1)
               else a[i - 1 := tmp])
      else a[i - 1 := tmp])"
  by pat_completeness auto
termination
  by (relation "measure (\<lambda>(k, n, tmp, a, i, j). Suc n - j)") (auto simp: Let_def)

declare sift.simps [simp del]

fun heapify :: "('a \<Rightarrow> int) \<Rightarrow> nat \<Rightarrow> 'a list \<Rightarrow> nat \<Rightarrow> 'a list" where
  "heapify k n a 0 = a"
| "heapify k n a (Suc l) = heapify k n (sift k n (a ! l) a (Suc l) (2 * Suc l)) l"

fun sortdown :: "('a \<Rightarrow> int) \<Rightarrow> 'a list \<Rightarrow> nat \<Rightarrow> 'a list" where
  "sortdown k a 0 = a"
| "sortdown k a (Suc 0) = a"
| "sortdown k a (Suc (Suc m)) =
     sortdown k (sift k (Suc m) (a ! Suc m) (a[Suc m := a ! 0]) 1 2) (Suc m)"

definition aheapsort :: "('a \<Rightarrow> int) \<Rightarrow> 'a list \<Rightarrow> 'a list" where
  "aheapsort k xs = sortdown k (heapify k (length xs) xs (length xs div 2)) (length xs)"

text \<open>\<^verbatim>\<open>npy_get_msb\<close>: the number of times the length can be halved before it is 0.\<close>

fun npy_get_msb :: "nat \<Rightarrow> nat" where
  "npy_get_msb n = (if n < 2 then 0 else Suc (npy_get_msb (n div 2)))"

declare npy_get_msb.simps [simp del]

subsection \<open>What the partition returns\<close>

lemma length_swap [simp]: "length (swap_at xs i j) = length xs"
  by (simp add: swap_at_def)

lemma mset_swap' : "i < length xs \<Longrightarrow> j < length xs \<Longrightarrow> mset (swap_at xs i j) = mset xs"
  unfolding swap_at_def by (rule mset_swap)

lemma nth_swap:
  "i < length xs \<Longrightarrow> j < length xs \<Longrightarrow>
   swap_at xs i j ! t = (if t = j then xs ! i else if t = i then xs ! j else xs ! t)"
  by (simp add: swap_at_def nth_list_update)

lemma length_cswap [simp]: "length (cswap k xs i j) = length xs"
  by (simp add: cswap_def)

lemma mset_cswap: "i < length xs \<Longrightarrow> j < length xs \<Longrightarrow> mset (cswap k xs i j) = mset xs"
  by (simp add: cswap_def mset_swap')

lemma cswap_nth:
  assumes "i < length xs" and "j < length xs" and "i \<noteq> j"
  shows "k (cswap k xs i j ! i) = max (k (xs ! i)) (k (xs ! j)) \<and>
         k (cswap k xs i j ! j) = min (k (xs ! i)) (k (xs ! j)) \<and>
         (\<forall>t. t \<noteq> i \<and> t \<noteq> j \<longrightarrow> cswap k xs i j ! t = xs ! t)"
  using assms by (auto simp: cswap_def nth_swap)

lemma med3_spec:
  assumes "3 \<le> length xs"
  shows "mset (med3 k xs) = mset xs"
    and "k (med3 k xs ! 0) \<le> k (med3 k xs ! ((length xs - 1) div 2))"
    and "k (med3 k xs ! ((length xs - 1) div 2)) \<le> k (med3 k xs ! (length xs - 1))"
proof -
  define pr where "pr = length xs - 1"
  define pm where "pm = pr div 2"
  define y1 where "y1 = cswap k xs pm 0"
  define y2 where "y2 = cswap k y1 pr pm"
  define y3 where "y3 = cswap k y2 pm 0"
  have m: "med3 k xs = y3"
    by (simp add: med3_def Let_def y3_def y2_def y1_def pm_def pr_def)
  from assms have i: "0 < pm" "pm < pr" "pr < length xs" "pm < length xs" "0 < length xs"
    by (auto simp: pm_def pr_def)
  have l: "length y1 = length xs" "length y2 = length xs" by (simp_all add: y1_def y2_def)
  have a: "k (y1 ! pm) = max (k (xs ! pm)) (k (xs ! 0))"
    "k (y1 ! 0) = min (k (xs ! pm)) (k (xs ! 0))" "y1 ! pr = xs ! pr"
    using i cswap_nth [of pm xs 0 k] by (simp_all add: y1_def)
  have b: "k (y2 ! pr) = max (k (y1 ! pr)) (k (y1 ! pm))"
    "k (y2 ! pm) = min (k (y1 ! pr)) (k (y1 ! pm))" "y2 ! 0 = y1 ! 0"
    using i l cswap_nth [of pr y1 pm k] by (simp_all add: y2_def)
  have c: "k (y3 ! pm) = max (k (y2 ! pm)) (k (y2 ! 0))"
    "k (y3 ! 0) = min (k (y2 ! pm)) (k (y2 ! 0))" "y3 ! pr = y2 ! pr"
    using i l cswap_nth [of pm y2 0 k] by (simp_all add: y3_def)
  show "mset (med3 k xs) = mset xs"
    using i l by (simp add: m y3_def y2_def y1_def mset_cswap)
  show "k (med3 k xs ! 0) \<le> k (med3 k xs ! ((length xs - 1) div 2))"
    unfolding m pm_def [symmetric] pr_def [symmetric] using c by linarith
  show "k (med3 k xs ! ((length xs - 1) div 2)) \<le> k (med3 k xs ! (length xs - 1))"
    unfolding m pm_def [symmetric] pr_def [symmetric] using a b c by (simp add: min_def max_def)
qed

lemma scan_up_below: "i \<le> t \<Longrightarrow> t < scan_up k vp xs i \<Longrightarrow> k (xs ! t) < vp"
proof (induction k vp xs i rule: scan_up.induct)
  case (1 k vp xs i)
  show ?case
  proof (cases "i < length xs \<and> k (xs ! i) < vp")
    case True
    then have e: "scan_up k vp xs i = scan_up k vp xs (Suc i)" by (simp add: scan_up_step)
    show ?thesis
    proof (cases "t = i")
      case True
      with \<open>i < length xs \<and> k (xs ! i) < vp\<close> show ?thesis by simp
    next
      case False
      with "1.prems" have "Suc i \<le> t" by simp
      with 1 True e show ?thesis by simp
    qed
  next
    case False
    then have "scan_up k vp xs i = i" by (rule scan_up_stop)
    with "1.prems" show ?thesis by simp
  qed
qed

lemma scan_up_at:
  "scan_up k vp xs i < length xs \<Longrightarrow> \<not> k (xs ! scan_up k vp xs i) < vp"
proof (induction k vp xs i rule: scan_up.induct)
  case (1 k vp xs i)
  show ?case
  proof (cases "i < length xs \<and> k (xs ! i) < vp")
    case True
    then have e: "scan_up k vp xs i = scan_up k vp xs (Suc i)" by (simp add: scan_up_step)
    with 1 True show ?thesis by simp
  next
    case False
    then have e: "scan_up k vp xs i = i" by (rule scan_up_stop)
    with "1.prems" False show ?thesis by simp
  qed
qed

lemma scan_up_le_sentinel:
  assumes "i \<le> s" and "\<not> k (xs ! s) < vp"
  shows "scan_up k vp xs i \<le> s"
proof (rule ccontr)
  assume "\<not> scan_up k vp xs i \<le> s"
  then have "s < scan_up k vp xs i" by simp
  from scan_up_below [OF assms(1) this] assms(2) show False by simp
qed

lemma scan_down_above: "scan_down k vp xs j < t \<Longrightarrow> t \<le> j \<Longrightarrow> vp < k (xs ! t)"
proof (induction j)
  case 0
  then show ?case by simp
next
  case (Suc j)
  show ?case
  proof (cases "vp < k (xs ! Suc j)")
    case True
    show ?thesis
    proof (cases "t = Suc j")
      case True
      with \<open>vp < k (xs ! Suc j)\<close> show ?thesis by simp
    next
      case False
      with Suc.prems have "t \<le> j" by simp
      with Suc True show ?thesis by simp
    qed
  next
    case False
    with Suc.prems show ?thesis by simp
  qed
qed

lemma scan_down_at: "scan_down k vp xs j = 0 \<or> \<not> vp < k (xs ! scan_down k vp xs j)"
  by (induction j) auto

lemma scan_down_ge_sentinel:
  assumes "s \<le> j" and "\<not> vp < k (xs ! s)"
  shows "s \<le> scan_down k vp xs j"
proof (rule ccontr)
  assume "\<not> s \<le> scan_down k vp xs j"
  then have "scan_down k vp xs j < s" by simp
  from scan_down_above [OF this assms(1)] assms(2) show False by simp
qed

lemma part_loop_spec:
  assumes "part_loop k vp xs p_i p_j = (ws, p)"
    and "p_i < p_j" and "p_j < length xs"
    and "\<forall>i\<le>p_i. k (xs ! i) \<le> vp"
    and "\<forall>i. p_j \<le> i \<and> i < length xs \<longrightarrow> vp \<le> k (xs ! i)"
  shows "mset ws = mset xs \<and> p_i < p \<and> p \<le> p_j \<and>
         (\<forall>i<p. k (ws ! i) \<le> vp) \<and>
         (\<forall>i. p \<le> i \<and> i < length xs \<longrightarrow> vp \<le> k (ws ! i)) \<and>
         (\<forall>i. p_j \<le> i \<longrightarrow> ws ! i = xs ! i)"
  using assms
proof (induction k vp xs p_i p_j arbitrary: ws p rule: part_loop.induct)
  case (1 k vp xs p_i p_j)
  define p_i' where "p_i' = scan_up k vp xs (Suc p_i)"
  define p_j' where "p_j' = scan_down k vp xs (p_j - 1)"
  note low = "1.prems"(4) and high = "1.prems"(5)
  from "1.prems"(2,3) high have sent: "\<not> k (xs ! p_j) < vp" by force
  have F1: "Suc p_i \<le> p_i'" "p_i' \<le> p_j"
    using scan_up_ge [of "Suc p_i" k vp xs] scan_up_le_sentinel [of "Suc p_i" p_j k xs vp]
      "1.prems"(2) sent by (simp_all add: p_i'_def)
  have F2: "k (xs ! t) < vp" if "Suc p_i \<le> t" "t < p_i'" for t
    using scan_up_below [of "Suc p_i" t k vp xs] that by (simp add: p_i'_def)
  have F3: "\<not> k (xs ! p_i') < vp"
    using scan_up_at [of k vp xs "Suc p_i"] F1 "1.prems"(3) by (simp add: p_i'_def)
  from low have lo: "\<not> vp < k (xs ! p_i)" by force
  have G1: "p_i \<le> p_j'" "p_j' \<le> p_j - 1"
    using scan_down_ge_sentinel [of p_i "p_j - 1" vp k xs] scan_down_le [of k vp xs "p_j - 1"]
      "1.prems"(2) lo by (simp_all add: p_j'_def)
  have G2: "vp < k (xs ! t)" if "p_j' < t" "t \<le> p_j - 1" for t
    using scan_down_above [of k vp xs "p_j - 1" t] that by (simp add: p_j'_def)
  have G3: "\<not> vp < k (xs ! p_j')"
  proof (cases "p_j' = 0")
    case True
    with G1 have "p_i = 0" by simp
    with lo True show ?thesis by simp
  next
    case False
    with scan_down_at [of k vp xs "p_j - 1"] show ?thesis by (simp add: p_j'_def)
  qed
  show ?case
  proof (cases "p_i' \<ge> p_j'")
    case True
    then have "part_loop k vp xs p_i p_j = (xs, p_i')"
      by (subst part_loop.simps) (simp add: Let_def p_i'_def p_j'_def)
    with "1.prems"(1) have r: "ws = xs" "p = p_i'" by simp_all
    have a: "k (xs ! i) \<le> vp" if "i < p_i'" for i
    proof (cases "i \<le> p_i")
      case True
      with low show ?thesis by simp
    next
      case False
      with that F2 [of i] show ?thesis by simp
    qed
    have b: "vp \<le> k (xs ! i)" if h: "p_i' \<le> i" "i < length xs" for i
    proof -
      consider "i = p_i'" | "p_i' < i" "i < p_j" | "p_j \<le> i" using h by linarith
      then show ?thesis
      proof cases
        case 1
        with F3 show ?thesis by simp
      next
        case 2
        then have "p_j' < i" "i \<le> p_j - 1" using True by simp_all
        with G2 [of i] show ?thesis by simp
      next
        case 3
        with high h show ?thesis by simp
      qed
    qed
    from a b F1 show ?thesis unfolding r by auto
  next
    case False
    then have lt: "p_i' < p_j'" by simp
    let ?xs' = "swap_at xs p_i' p_j'"
    from lt G1 "1.prems"(2,3) have bnd: "p_i' < length xs" "p_j' < length xs" "p_j' < p_j"
      by simp_all
    from False have "part_loop k vp xs p_i p_j = part_loop k vp ?xs' p_i' p_j'"
      by (subst part_loop.simps) (simp add: Let_def p_i'_def p_j'_def)
    with "1.prems"(1) have run: "part_loop k vp ?xs' p_i' p_j' = (ws, p)" by simp
    have low': "\<forall>i\<le>p_i'. k (?xs' ! i) \<le> vp"
    proof (intro allI impI)
      fix i assume i: "i \<le> p_i'"
      show "k (?xs' ! i) \<le> vp"
      proof (cases "i = p_i'")
        case True
        with bnd lt G3 show ?thesis by (simp add: nth_swap)
      next
        case False
        with i lt bnd have e: "?xs' ! i = xs ! i" by (simp add: nth_swap)
        show ?thesis
        proof (cases "i \<le> p_i")
          case True
          with low e show ?thesis by simp
        next
          case False
          with i \<open>i \<noteq> p_i'\<close> F2 [of i] e show ?thesis by simp
        qed
      qed
    qed
    have high': "\<forall>i. p_j' \<le> i \<and> i < length ?xs' \<longrightarrow> vp \<le> k (?xs' ! i)"
    proof (intro allI impI)
      fix i assume i: "p_j' \<le> i \<and> i < length ?xs'"
      show "vp \<le> k (?xs' ! i)"
      proof (cases "i = p_j'")
        case True
        with bnd lt F3 show ?thesis by (simp add: nth_swap)
      next
        case False
        with i lt bnd have e: "?xs' ! i = xs ! i" by (simp add: nth_swap)
        show ?thesis
        proof (cases "i < p_j")
          case True
          with i False have "p_j' < i" "i \<le> p_j - 1" by simp_all
          with G2 [of i] e show ?thesis by simp
        next
          case False
          with i high e show ?thesis by simp
        qed
      qed
    qed
    have len': "p_j' < length ?xs'" using bnd by simp
    from "1.IH" [OF p_i'_def p_j'_def False run lt len' low' high']
    have ih: "mset ws = mset ?xs'" "p_i' < p" "p \<le> p_j'"
      "\<forall>i<p. k (ws ! i) \<le> vp"
      "\<forall>i. p \<le> i \<and> i < length ?xs' \<longrightarrow> vp \<le> k (ws ! i)"
      "\<forall>i. p_j' \<le> i \<longrightarrow> ws ! i = ?xs' ! i"
      by blast+
    have m: "mset ws = mset xs" using ih(1) bnd by (simp add: mset_swap')
    have u: "\<forall>i. p_j \<le> i \<longrightarrow> ws ! i = xs ! i"
    proof (intro allI impI)
      fix i assume "p_j \<le> i"
      with bnd lt have "p_j' \<le> i" "i \<noteq> p_j'" "i \<noteq> p_i'" by simp_all
      with ih(6) bnd show "ws ! i = xs ! i" by (simp add: nth_swap)
    qed
    from m ih F1 bnd u show ?thesis by auto
  qed
qed

lemma partition_spec:
  assumes "3 \<le> length xs" and "partition_step k xs = (ys, p)"
  shows "mset ys = mset xs" and "p < length xs - 1"
    and "\<forall>i<p. k (ys ! i) \<le> k (ys ! p)"
    and "\<forall>i. p < i \<and> i < length xs \<longrightarrow> k (ys ! p) \<le> k (ys ! i)"
proof -
  let ?pr = "length xs - 1" and ?pm = "(length xs - 1) div 2"
  define ms where "ms = med3 k xs"
  define vp where "vp = k (ms ! ?pm)"
  define zs where "zs = swap_at ms ?pm (?pr - 1)"
  obtain ws q where pl: "part_loop k vp zs 0 (?pr - 1) = (ws, q)" by (cases "part_loop k vp zs 0 (?pr - 1)")
  from assms(2) pl have r: "ys = swap_at ws q (?pr - 1)" "p = q"
    by (auto simp: partition_step_def Let_def ms_def vp_def zs_def)
  from med3_spec [OF assms(1), of k]
  have ms: "mset ms = mset xs" "k (ms ! 0) \<le> vp" "vp \<le> k (ms ! ?pr)"
    by (simp_all add: ms_def vp_def)
  then have lms: "length ms = length xs" using mset_eq_length by blast
  from assms(1) have i: "0 < ?pm" "?pm < ?pr" "?pr < length xs" "0 < ?pr - 1" "?pr - 1 < length xs"
    by auto
  have lzs: "length zs = length xs" by (simp add: zs_def lms)
  have mzs: "mset zs = mset xs" using ms(1) i lms by (simp add: zs_def mset_swap')
  have z0: "zs ! 0 = ms ! 0" using i lms by (simp add: zs_def nth_swap)
  have zp: "k (zs ! (?pr - 1)) = vp" using i lms by (simp add: zs_def nth_swap vp_def)
  have zr: "zs ! ?pr = ms ! ?pr" using i lms by (auto simp: zs_def nth_swap)
  have low: "\<forall>i\<le>0. k (zs ! i) \<le> vp" using z0 ms(2) by simp
  have high: "\<forall>i. ?pr - 1 \<le> i \<and> i < length zs \<longrightarrow> vp \<le> k (zs ! i)"
  proof (intro allI impI)
    fix t assume "?pr - 1 \<le> t \<and> t < length zs"
    with lzs have "t = ?pr - 1 \<or> t = ?pr" by auto
    with zp zr ms(3) show "vp \<le> k (zs ! t)" by auto
  qed
  from i lzs have b: "0 < ?pr - 1" "?pr - 1 < length zs" by simp_all
  from part_loop_spec [OF pl b low high]
  have sp: "mset ws = mset zs" "0 < q" "q \<le> ?pr - 1"
    "\<forall>i<q. k (ws ! i) \<le> vp"
    "\<forall>i. q \<le> i \<and> i < length zs \<longrightarrow> vp \<le> k (ws ! i)"
    "\<forall>i. ?pr - 1 \<le> i \<longrightarrow> ws ! i = zs ! i"
    by blast+
  then have lws: "length ws = length xs" using mset_eq_length lzs by metis
  from sp(3) i have qb: "q < length ws" "?pr - 1 < length ws" by (simp_all add: lws)
  show "mset ys = mset xs" using sp(1) mzs qb by (simp add: r mset_swap')
  show "p < length xs - 1" using sp(3) i by (simp add: r)
  have piv: "k (ys ! q) = vp"
    using qb sp(6) zp by (simp add: r nth_swap)
  show "\<forall>i<p. k (ys ! i) \<le> k (ys ! p)"
  proof (intro allI impI)
    fix t assume "t < p"
    with sp(3) qb have "ys ! t = ws ! t" by (simp add: r nth_swap)
    with sp(4) \<open>t < p\<close> piv show "k (ys ! t) \<le> k (ys ! p)" by (simp add: r)
  qed
  show "\<forall>i. p < i \<and> i < length xs \<longrightarrow> k (ys ! p) \<le> k (ys ! i)"
  proof (intro allI impI)
    fix t assume t: "p < t \<and> t < length xs"
    show "k (ys ! p) \<le> k (ys ! t)"
    proof (cases "t = ?pr - 1")
      case True
      with qb have "ys ! t = ws ! q" by (simp add: r nth_swap)
      moreover from sp(5) qb lzs lws have "vp \<le> k (ws ! q)" by simp
      ultimately show ?thesis using piv by (simp add: r)
    next
      case False
      with t qb have "ys ! t = ws ! t" by (simp add: r nth_swap)
      moreover from sp(5) t lzs have "vp \<le> k (ws ! t)" by (simp add: r)
      ultimately show ?thesis using piv by (simp add: r)
    qed
  qed
qed

lemma partition_shorter:
  assumes "3 \<le> length xs" and "partition_step k xs = (ys, p)"
  shows "length (take p ys) < length xs" and "length (drop (Suc p) ys) < length xs"
proof -
  from partition_spec(1,2) [OF assms] have "length ys = length xs" "p < length xs - 1"
    using mset_eq_length by blast+
  then show "length (take p ys) < length xs" "length (drop (Suc p) ys) < length xs"
    by simp_all
qed

subsection \<open>The introsort\<close>

text \<open>
  \<^verbatim>\<open>aquicksort_\<close> holds the segments still to do on a stack. They do not overlap, so the
  result is that of sorting each where it is pushed. \<open>popped\<close> tells whether the segment
  comes from the stack, where the depth budget is tested, or is the part the inner loop
  goes on with, where it is not. Both parts get the budget less 1.
\<close>

function aquicksort :: "('a \<Rightarrow> int) \<Rightarrow> bool \<Rightarrow> int \<Rightarrow> 'a list \<Rightarrow> 'a list" where
  "aquicksort k popped cdepth xs =
     (if popped \<and> cdepth < 0 then aheapsort k xs
      else if 16 < length xs - 1
      then (let (ys, p_i) = partition_step k xs
            in if p_i < length xs - 1 - p_i
               then aquicksort k False (cdepth - 1) (take p_i ys) @ [ys ! p_i] @
                    aquicksort k True (cdepth - 1) (drop (Suc p_i) ys)
               else aquicksort k True (cdepth - 1) (take p_i ys) @ [ys ! p_i] @
                    aquicksort k False (cdepth - 1) (drop (Suc p_i) ys))
      else insertion_sort k xs)"
  by pat_completeness auto
termination
proof (relation "measure (\<lambda>(k, popped, cdepth, xs). length xs)", goal_cases)
  case 1
  then show ?case by simp
next
  case (2 k popped cdepth xs x ys p_i)
  then have "partition_step k xs = (ys, p_i)" "3 \<le> length xs" by simp_all
  from partition_shorter(1) [OF this(2,1)] show ?case by simp
next
  case (3 k popped cdepth xs x ys p_i)
  then have "partition_step k xs = (ys, p_i)" "3 \<le> length xs" by simp_all
  from partition_shorter(2) [OF this(2,1)] show ?case by simp
next
  case (4 k popped cdepth xs x ys p_i)
  then have "partition_step k xs = (ys, p_i)" "3 \<le> length xs" by simp_all
  from partition_shorter(1) [OF this(2,1)] show ?case by simp
next
  case (5 k popped cdepth xs x ys p_i)
  then have "partition_step k xs = (ys, p_i)" "3 \<le> length xs" by simp_all
  from partition_shorter(2) [OF this(2,1)] show ?case by simp
qed

declare aquicksort.simps [simp del]

definition numpy_argsort :: "('a \<Rightarrow> int) \<Rightarrow> 'a list \<Rightarrow> 'a list" where
  "numpy_argsort k xs = aquicksort k True (2 * int (npy_get_msb (length xs))) xs"

definition stamp :: "row \<Rightarrow> int" where
  "stamp r = (case Date r of None \<Rightarrow> 0 | Some t \<Rightarrow> t)"

definition sort_values :: "row list \<Rightarrow> row list" where
  "sort_values rs =
     numpy_argsort stamp (filter (\<lambda>r. Date r \<noteq> None) rs) @ filter (\<lambda>r. Date r = None) rs"

section \<open>Filtering (lines 82 to 87)\<close>

text \<open>
  \<^verbatim>\<open>isin\<close> is false on a missing city, and a comparison with NaT is false. \<open>t_start\<close> and
  \<open>t_end\<close> are \<^verbatim>\<open>pd.Timestamp(date_range[0])\<close> and \<^verbatim>\<open>pd.Timestamp(date_range[-1])\<close>: the date
  picker returns plain dates, so the two bounds never have a time zone.
\<close>

fun isin :: "string option \<Rightarrow> string list \<Rightarrow> bool" where
  "isin None cs = False"
| "isin (Some c) cs = (c \<in> set cs)"

fun ts_ge :: "timestamp option \<Rightarrow> timestamp \<Rightarrow> bool" where
  "ts_ge None t = False"
| "ts_ge (Some d) t = (d \<ge> t)"

fun ts_le :: "timestamp option \<Rightarrow> timestamp \<Rightarrow> bool" where
  "ts_le None t = False"
| "ts_le (Some d) t = (d \<le> t)"

text \<open>
  \<open>mask\<close> is the boolean column of lines 82 to 86, one entry for each row. Comparing a
  \<^verbatim>\<open>Date\<close> column that has a time zone with a bound that has none raises TypeError, whatever
  the rows and the selection are.
\<close>

definition mask_row :: "string list \<Rightarrow> timestamp \<Rightarrow> timestamp \<Rightarrow> row \<Rightarrow> bool" where
  "mask_row selected_cities t_start t_end r \<longleftrightarrow>
     isin (City r) selected_cities \<and> ts_ge (Date r) t_start \<and> ts_le (Date r) t_end"

definition mask :: "frame \<Rightarrow> string list \<Rightarrow> timestamp \<Rightarrow> timestamp \<Rightarrow> error + bool list" where
  "mask df selected_cities t_start t_end =
     (if Date_tz df then Inl TypeError
      else Inr (map (mask_row selected_cities t_start t_end) (rows df)))"

text \<open>Line 87: \<^verbatim>\<open>df.loc[mask]\<close> keeps the rows whose entry in the mask is true, in order.\<close>

definition loc :: "row list \<Rightarrow> bool list \<Rightarrow> row list" where
  "loc rs m = map fst (filter snd (zip rs m))"

definition filtered_df :: "frame \<Rightarrow> string list \<Rightarrow> timestamp \<Rightarrow> timestamp \<Rightarrow> error + frame" where
  "filtered_df df selected_cities t_start t_end =
     (case mask df selected_cities t_start t_end of
        Inl e \<Rightarrow> Inl e
      | Inr m \<Rightarrow> Inr (df\<lparr>rows := loc (rows df) m\<rparr>))"

section \<open>Aggregates (lines 95 to 104 and 128 to 129)\<close>

fun dropna_vals :: "'a option list \<Rightarrow> 'a list" where
  "dropna_vals [] = []"
| "dropna_vals (None # xs) = dropna_vals xs"
| "dropna_vals (Some x # xs) = x # dropna_vals xs"

text \<open>\<^verbatim>\<open>Series.mean()\<close> skips NaN; with no number left the mean is NaN.\<close>

definition mean_skipna :: "real option list \<Rightarrow> real option" where
  "mean_skipna xs =
     (let ys = dropna_vals xs
      in if ys = [] then None else Some (sum_list ys / real (length ys)))"

text \<open>
  \<^verbatim>\<open>groupby('City')\<close> keeps its defaults: rows with a missing city are left out and the
  groups come in ascending order of the city name. \<^verbatim>\<open>['AQI'].mean()\<close> gives one entry for
  every group, NaN for a group with no reading.
\<close>

definition group_keys :: "row list \<Rightarrow> string list" where
  "group_keys rs = sort (remdups (dropna_vals (map City rs)))"

definition city_mean :: "row list \<Rightarrow> string \<Rightarrow> real option" where
  "city_mean rs c = mean_skipna (map AQI (filter (\<lambda>r. City r = Some c) rs))"

definition groupby_City_AQI_mean :: "row list \<Rightarrow> (string \<times> real option) list" where
  "groupby_City_AQI_mean rs = map (\<lambda>c. (c, city_mean rs c)) (group_keys rs)"

text \<open>
  \<^verbatim>\<open>idxmax\<close> and \<^verbatim>\<open>idxmin\<close> skip NaN and return the label of the first entry that holds the
  extreme value. When no entry holds a number there is no label (\<open>None\<close>): pandas returns
  NaN there, or raises ValueError from version 3.
\<close>

fun idxmax_scan :: "(string \<times> real) option \<Rightarrow> (string \<times> real option) list \<Rightarrow> (string \<times> real) option" where
  "idxmax_scan best [] = best"
| "idxmax_scan best ((k, None) # s) = idxmax_scan best s"
| "idxmax_scan None ((k, Some v) # s) = idxmax_scan (Some (k, v)) s"
| "idxmax_scan (Some (bk, bv)) ((k, Some v) # s) =
     idxmax_scan (if bv < v then Some (k, v) else Some (bk, bv)) s"

fun idxmin_scan :: "(string \<times> real) option \<Rightarrow> (string \<times> real option) list \<Rightarrow> (string \<times> real) option" where
  "idxmin_scan best [] = best"
| "idxmin_scan best ((k, None) # s) = idxmin_scan best s"
| "idxmin_scan None ((k, Some v) # s) = idxmin_scan (Some (k, v)) s"
| "idxmin_scan (Some (bk, bv)) ((k, Some v) # s) =
     idxmin_scan (if v < bv then Some (k, v) else Some (bk, bv)) s"

definition idxmax :: "(string \<times> real option) list \<Rightarrow> string option" where
  "idxmax s = map_option fst (idxmax_scan None s)"

definition idxmin :: "(string \<times> real option) list \<Rightarrow> string option" where
  "idxmin s = map_option fst (idxmin_scan None s)"

text \<open>\<^verbatim>\<open>DataFrame.empty\<close>: an axis of length zero.\<close>

definition empty_frame :: "frame \<Rightarrow> bool" where
  "empty_frame df \<longleftrightarrow> rows df = [] \<or> columns df = []"

text \<open>
  Lines 95 to 104. The three metrics are computed when the table has an \<^verbatim>\<open>AQI\<close> column and
  is not empty; otherwise the warning of line 104 is shown in their place.
\<close>

datatype 'a kpi = Unavailable | Metric 'a

definition kpi_guard :: "frame \<Rightarrow> bool" where
  "kpi_guard v \<longleftrightarrow> ''AQI'' \<in> set (columns v) \<and> \<not> empty_frame v"

definition avg_aqi :: "frame \<Rightarrow> real option kpi" where
  "avg_aqi v = (if kpi_guard v then Metric (mean_skipna (map AQI (rows v))) else Unavailable)"

definition worst_city :: "frame \<Rightarrow> string option kpi" where
  "worst_city v =
     (if kpi_guard v then Metric (idxmax (groupby_City_AQI_mean (rows v))) else Unavailable)"

definition best_city :: "frame \<Rightarrow> string option kpi" where
  "best_city v =
     (if kpi_guard v then Metric (idxmin (groupby_City_AQI_mean (rows v))) else Unavailable)"

text \<open>Lines 128 to 129: the table behind the bar chart; no chart without an \<^verbatim>\<open>AQI\<close> column.\<close>

definition aqi_avg :: "frame \<Rightarrow> (string \<times> real option) list option" where
  "aqi_avg v =
     (if ''AQI'' \<in> set (columns v) then Some (groupby_City_AQI_mean (rows v)) else None)"

section \<open>Alerts (lines 161 to 174)\<close>

datatype alert = Banner AlertLevel "real option" | NoRecentData

definition city_data :: "frame \<Rightarrow> string \<Rightarrow> frame" where
  "city_data v city = v\<lparr>rows := filter (\<lambda>r. City r = Some city) (rows v)\<rparr>"

text \<open>
  The guard of line 163 asks for one reading of the city that is not NaN; line 164 then
  takes the last cell of the column, \<^verbatim>\<open>iloc[-1]\<close>, which exists when the guard holds.
\<close>

definition alert_for :: "frame \<Rightarrow> string \<Rightarrow> alert" where
  "alert_for v city =
     (let aqi = map AQI (rows (city_data v city))
      in if ''AQI'' \<in> set (columns v) \<and> dropna_vals aqi \<noteq> []
         then (let latest_aqi = last aqi in Banner (classify latest_aqi) latest_aqi)
         else NoRecentData)"

definition alerts :: "frame \<Rightarrow> string list \<Rightarrow> (string \<times> alert) list" where
  "alerts v selected_cities = map (\<lambda>city. (city, alert_for v city)) selected_cities"

section \<open>The script as a whole\<close>

text \<open>
  The widgets hand over the selection: the chosen cities and the tuple of the date picker,
  already converted by \<^verbatim>\<open>pd.Timestamp\<close>. \<^verbatim>\<open>st.stop()\<close> on line 52 ends the run, and so does an
  exception that nothing catches; the charts themselves are drawn by plotly and are not part
  of the model.
\<close>

record dashboard =
  kpi_avg :: "real option kpi"
  kpi_worst :: "string option kpi"
  kpi_best :: "string option kpi"
  bar_table :: "(string \<times> real option) list option"
  alert_lines :: "(string \<times> alert) list"

definition app :: "(row list \<Rightarrow> row list) \<Rightarrow> csv_read \<Rightarrow> string list \<Rightarrow> timestamp list \<Rightarrow> error + dashboard" where
  "app srt src selected_cities date_range =
     (case load srt src of
        Inl e \<Rightarrow> Inl e
      | Inr df \<Rightarrow>
          (if date_range = [] then Inl IndexError
           else (case filtered_df df selected_cities (hd date_range) (last date_range) of
                   Inl e \<Rightarrow> Inl e
                 | Inr v \<Rightarrow>
                     Inr \<lparr>kpi_avg = avg_aqi v, kpi_worst = worst_city v, kpi_best = best_city v,
                           bar_table = aqi_avg v, alert_lines = alerts v selected_cities\<rparr>)))"

section \<open>Example tables\<close>

definition cols :: "string list" where
  "cols = [''City'', ''Date'', ''AQI'']"

definition reading :: "string \<Rightarrow> timestamp \<Rightarrow> real option \<Rightarrow> row" where
  "reading c t a = \<lparr>City = Some c, Datetime = None, Date = Some t, AQI = a\<rparr>"

text \<open>A table with these columns whose dates have no time zone.\<close>

definition table :: "row list \<Rightarrow> frame" where
  "table rs = \<lparr>columns = cols, Datetime_tz = False, Date_tz = False, rows = rs\<rparr>"

definition scenario :: frame where
  "scenario = table
            [reading ''Delhi'' 1 (Some 45), reading ''Mumbai'' 1 (Some 80),
             reading ''Delhi'' 2 (Some 220)]"

definition five_days :: frame where
  "five_days = table
            [reading ''Delhi'' 1 (Some 45), reading ''Mumbai'' 2 (Some 80),
             reading ''Pune'' 2 (Some 60), reading ''Delhi'' 3 (Some 220),
             reading ''Mumbai'' 4 None]"

definition tied_view :: frame where
  "tied_view = table [reading ''Mumbai'' 1 (Some 100), reading ''Delhi'' 2 (Some 100)]"

definition null_last_view :: frame where
  "null_last_view = table [reading ''Delhi'' 1 (Some 45), reading ''Delhi'' 2 None]"

definition all_null_view :: frame where
  "all_null_view = table [reading ''Delhi'' 1 None]"

definition null_city_view :: frame where
  "null_city_view = table [reading ''Delhi'' 1 None, reading ''Mumbai'' 1 (Some 80)]"

text \<open>Eighteen cities with one reading each, all of the same day, in the order read.\<close>

definition one_day :: "row list" where
  "one_day =
     [reading ''Ahmedabad'' 1 (Some 101), reading ''Aizawl'' 1 (Some 102),
      reading ''Amaravati'' 1 (Some 103), reading ''Amritsar'' 1 (Some 104),
      reading ''Bengaluru'' 1 (Some 105), reading ''Bhopal'' 1 (Some 106),
      reading ''Brajrajnagar'' 1 (Some 107), reading ''Chandigarh'' 1 (Some 108),
      reading ''Chennai'' 1 (Some 109), reading ''Coimbatore'' 1 (Some 110),
      reading ''Delhi'' 1 (Some 111), reading ''Ernakulam'' 1 (Some 112),
      reading ''Gurugram'' 1 (Some 113), reading ''Guwahati'' 1 (Some 114),
      reading ''Hyderabad'' 1 (Some 115), reading ''Jaipur'' 1 (Some 116),
      reading ''Jorapokhar'' 1 (Some 117), reading ''Kochi'' 1 (Some 118)]"

text \<open>
  A source whose \<^verbatim>\<open>Datetime\<close> text carries a UTC offset: the parsed column has a time zone.
\<close>

definition zoned_source :: frame where
  "zoned_source = \<lparr>columns = [''City'', ''Datetime'', ''AQI''], Datetime_tz = True, Date_tz = False,
     rows = [\<lparr>City = Some ''Delhi'', Datetime = Some 1, Date = None, AQI = Some 45\<rparr>]\<rparr>"

definition zoned_dataset :: frame where
  "zoned_dataset = \<lparr>columns = [''City'', ''Datetime'', ''AQI'', ''Date''], Datetime_tz = True,
     Date_tz = True,
     rows = [\<lparr>City = Some ''Delhi'', Datetime = Some 1, Date = Some 1, AQI = Some 45\<rparr>]\<rparr>"

text \<open>
  The tie-break as the specification words it, for comparison with \<open>idxmax\<close> and \<open>idxmin\<close>:
  among the cities whose mean is \<open>m\<close>, the one whose first row with a reading comes
  earliest in the row order.
\<close>

definition spec_first_in_row_order :: "row list \<Rightarrow> real \<Rightarrow> string option" where
  "spec_first_in_row_order rs m =
     (case filter (\<lambda>r. AQI r \<noteq> None \<and>
                        (case City r of None \<Rightarrow> False | Some c \<Rightarrow> city_mean rs c = Some m)) rs of
        [] \<Rightarrow> None
      | r # _ \<Rightarrow> City r)"

section \<open>Facts about the filter\<close>

lemma mask_row_iff:
  "mask_row cs s e r \<longleftrightarrow>
     (\<exists>c t. City r = Some c \<and> Date r = Some t \<and> c \<in> set cs \<and> s \<le> t \<and> t \<le> e)"
  by (cases "City r"; cases "Date r") (auto simp: mask_row_def)

lemma loc_map: "loc rs (map P rs) = filter P rs"
  by (induction rs) (simp_all add: loc_def)

lemma filtered_df_naive:
  "\<not> Date_tz D \<Longrightarrow> filtered_df D cs s e = Inr (D\<lparr>rows := filter (mask_row cs s e) (rows D)\<rparr>)"
  by (simp add: filtered_df_def mask_def loc_map)

lemma filtered_df_zoned: "Date_tz D \<Longrightarrow> filtered_df D cs s e = Inl TypeError"
  by (simp add: filtered_df_def mask_def)

lemma filtered_df_Inr:
  assumes "filtered_df D cs s e = Inr V"
  shows "\<not> Date_tz D" and "V = D\<lparr>rows := filter (mask_row cs s e) (rows D)\<rparr>"
proof -
  show n: "\<not> Date_tz D"
    using assms filtered_df_zoned [of D cs s e] by auto
  from filtered_df_naive [OF n, of cs s e] assms
  show "V = D\<lparr>rows := filter (mask_row cs s e) (rows D)\<rparr>" by simp
qed

lemma date_le_total: "\<not> date_le a b \<Longrightarrow> date_le b a"
  by (auto simp: date_le_def split: option.splits)

lemma date_le_trans: "date_le a b \<Longrightarrow> date_le b c \<Longrightarrow> date_le a c"
  by (auto simp: date_le_def split: option.splits)

lemma date_le_refl: "date_le a a"
  by (auto simp: date_le_def split: option.splits)

lemma sorted_wrt_filter_last:
  assumes "sorted_wrt P xs" and "\<And>x. P x x" and "x \<in> set (filter Q xs)"
  shows "P x (last (filter Q xs))"
proof -
  have sf: "sorted_wrt P (filter Q xs)" using assms(1) by (rule sorted_wrt_filter)
  from assms(3) have "filter Q xs \<noteq> []" by (auto simp: filter_empty_conv)
  then obtain ys y where ys: "filter Q xs = ys @ [y]" by (metis rev_exhaust)
  with sf have "\<forall>z\<in>set ys. P z y" by (simp add: sorted_wrt_append)
  with assms(3) ys assms(2) show ?thesis by auto
qed

lemma dropna_vals_set: "x \<in> set (dropna_vals xs) \<longleftrightarrow> Some x \<in> set xs"
  by (induction xs rule: dropna_vals.induct) auto

lemma dropna_vals_empty: "dropna_vals xs = [] \<longleftrightarrow> (\<forall>x \<in> set xs. x = None)"
  by (induction xs rule: dropna_vals.induct) auto

section \<open>Facts about the loader\<close>

lemma mset_insort_Date: "mset (insort_Date r xs) = add_mset r (mset xs)"
  by (induction xs) auto

lemma set_insort_Date: "set (insort_Date r xs) = insert r (set xs)"
  by (induction xs) auto

lemma sorted_insort_Date: "sorted_wrt date_le xs \<Longrightarrow> sorted_wrt date_le (insort_Date r xs)"
proof (induction xs)
  case Nil
  then show ?case by simp
next
  case (Cons x xs)
  show ?case
  proof (cases "date_le r x")
    case True
    have "\<forall>y \<in> set xs. date_le r y"
      using Cons.prems True date_le_trans [of r x] by auto
    with True Cons.prems show ?thesis by simp
  next
    case False
    then have "date_le x r" by (rule date_le_total)
    with False Cons show ?thesis by (auto simp: set_insort_Date)
  qed
qed

lemma mset_stable_sort_Date: "mset (stable_sort_Date xs) = mset xs"
  by (induction xs) (simp_all add: stable_sort_Date_def mset_insort_Date)

lemma sorted_stable_sort_Date: "sorted_wrt date_le (stable_sort_Date xs)"
  by (induction xs) (simp_all add: stable_sort_Date_def sorted_insort_Date)

lemma parse_dates_Inr:
  "parse_dates df = Inr d1 \<Longrightarrow>
     set (columns d1) = insert ''Date'' (set (columns df)) \<and>
     Date_tz d1 = (if ''Datetime'' \<in> set (columns df) then Datetime_tz df else Date_tz df) \<and>
     rows d1 = map (\<lambda>r. r\<lparr>Date := (if ''Datetime'' \<in> set (columns df) then Datetime r else Date r)\<rparr>)
                 (rows df)"
  unfolding parse_dates_def assign_Date_def
  by (cases "''Datetime'' \<in> set (columns df)"; cases "''Date'' \<in> set (columns df)") auto

lemma dropna_Inr:
  "dropna d1 = Inr d2 \<Longrightarrow>
     ''City'' \<in> set (columns d1) \<and> columns d2 = columns d1 \<and> Date_tz d2 = Date_tz d1 \<and>
     rows d2 = filter (\<lambda>r. City r \<noteq> None \<and> Date r \<noteq> None) (rows d1)"
  unfolding dropna_def
  by (cases "''City'' \<in> set (columns d1) \<and> ''Date'' \<in> set (columns d1)") auto

lemma load_Read:
  assumes "load srt (Read df) = Inr d"
  shows "rows d = srt (filter (\<lambda>r. City r \<noteq> None \<and> Date r \<noteq> None)
       (map (\<lambda>r. r\<lparr>Date := (if ''Datetime'' \<in> set (columns df) then Datetime r else Date r)\<rparr>)
          (rows df)))"
proof -
  from assms obtain d1 d2 where p: "parse_dates df = Inr d1" and q: "dropna d1 = Inr d2"
    and d: "d = d2\<lparr>rows := srt (rows d2)\<rparr>"
    by (auto simp: load_def split: sum.splits)
  from parse_dates_Inr [OF p] dropna_Inr [OF q] d show ?thesis by simp
qed

section \<open>Facts about the sort\<close>

lemma mset_ins_back: "mset (ins_back k x ys) = add_mset x (mset ys)"
  by (induction ys) auto

lemma sorted_ins_back:
  "sorted (map k (rev ys)) \<Longrightarrow> sorted (map k (rev (ins_back k x ys)))"
proof (induction ys)
  case Nil
  then show ?case by simp
next
  case (Cons y ys)
  from Cons.prems have s: "sorted (map k (rev ys))" and b: "\<forall>e \<in> set ys. k e \<le> k y"
    by (auto simp: sorted_append)
  show ?case
  proof (cases "k x < k y")
    case True
    have "set (ins_back k x ys) = insert x (set ys)"
      using mset_ins_back [of k x ys] by (metis set_mset_add_mset_insert set_mset_mset)
    with True b Cons.IH [OF s] show ?thesis by (auto simp: sorted_append)
  next
    case False
    with Cons.prems b show ?thesis by (auto simp: sorted_append)
  qed
qed

lemma foldl_ins_back:
  "sorted (map k (rev acc)) \<Longrightarrow>
   sorted (map k (rev (foldl (\<lambda>acc x. ins_back k x acc) acc xs))) \<and>
   mset (foldl (\<lambda>acc x. ins_back k x acc) acc xs) = mset acc + mset xs"
proof (induction xs arbitrary: acc)
  case Nil
  then show ?case by simp
next
  case (Cons x xs)
  from Cons.IH [OF sorted_ins_back [OF Cons.prems, of x]]
  show ?case by (simp add: mset_ins_back)
qed

lemma insertion_sort_spec:
  "sorted (map k (insertion_sort k xs))" "mset (insertion_sort k xs) = mset xs"
  using foldl_ins_back [of k "[]" xs] by (simp_all add: insertion_sort_def)

definition hp :: "('a \<Rightarrow> int) \<Rightarrow> 'a list \<Rightarrow> nat \<Rightarrow> nat \<Rightarrow> bool" where
  "hp k a n l \<longleftrightarrow>
     (\<forall>c. 2 \<le> c \<and> c \<le> n \<and> l \<le> c div 2 \<longrightarrow> k (a ! (c - 1)) \<le> k (a ! (c div 2 - 1)))"

lemma mset_move:
  assumes "p < length a" and "q < length a" and "p \<noteq> q"
  shows "mset (a[p := a ! q, q := t]) = mset (a[p := t])"
proof -
  let ?b = "a[p := t]"
  from assms have "?b[p := ?b ! q, q := ?b ! p] = a[p := a ! q, q := t]"
    by (simp add: list_update_swap)
  moreover from assms have "mset (?b[p := ?b ! q, q := ?b ! p]) = mset ?b"
    by (intro mset_swap) simp_all
  ultimately show ?thesis by simp
qed

lemma sift_spec:
  assumes "1 \<le> i" and "i \<le> n" and "n \<le> length a" and "j = 2 * i" and "1 \<le> l"
    and H: "\<forall>c. 2 \<le> c \<and> c \<le> n \<and> l \<le> c div 2 \<and> c div 2 \<noteq> i \<and> c \<noteq> i \<longrightarrow>
              k (a ! (c - 1)) \<le> k (a ! (c div 2 - 1))"
    and B: "\<forall>c. 2 \<le> c \<and> c \<le> n \<and> c div 2 = i \<and> l \<le> i div 2 \<longrightarrow>
              k (a ! (c - 1)) \<le> k (a ! (i div 2 - 1))"
    and T: "l \<le> i div 2 \<longrightarrow> k tmp \<le> k (a ! (i div 2 - 1))"
  shows "hp k (sift k n tmp a i j) n l \<and>
         mset (sift k n tmp a i j) = mset (a[i - 1 := tmp]) \<and>
         (\<forall>t\<ge>n. sift k n tmp a i j ! t = a ! t)"
  using assms
proof (induction k n tmp a i j rule: sift.induct)
  case (1 k n tmp a i j)
  note H = "1.prems"(6) and B = "1.prems"(7) and T = "1.prems"(8)
  from "1.prems" have b: "1 \<le> i" "i \<le> n" "n \<le> length a" "j = 2 * i" "1 \<le> l" by simp_all
  have place: "hp k (a[i - 1 := tmp]) n l"
    if top: "\<forall>c. 2 \<le> c \<and> c \<le> n \<and> c div 2 = i \<longrightarrow> k (a ! (c - 1)) \<le> k tmp"
  proof (unfold hp_def, intro allI impI)
    fix c assume c: "2 \<le> c \<and> c \<le> n \<and> l \<le> c div 2"
    then have cl: "c - 1 < length a" "c div 2 - 1 < length a" using b by auto
    show "k (a[i - 1 := tmp] ! (c - 1)) \<le> k (a[i - 1 := tmp] ! (c div 2 - 1))"
    proof (cases "c div 2 = i")
      case True
      then have "c \<noteq> i" using c by auto
      then have "c - 1 \<noteq> i - 1" using c b by auto
      with True top c cl b show ?thesis by (simp add: nth_list_update)
    next
      case False
      then have ne: "c div 2 - 1 \<noteq> i - 1" using c b by auto
      show ?thesis
      proof (cases "c = i")
        case True
        with T c ne cl b show ?thesis by (simp add: nth_list_update)
      next
        case False
        then have "c - 1 \<noteq> i - 1" using c b by auto
        with H c \<open>c div 2 \<noteq> i\<close> False ne cl show ?thesis by (simp add: nth_list_update)
      qed
    qed
  qed
  show ?case
  proof (cases "0 < j \<and> j \<le> n")
    case False
    then have r: "sift k n tmp a i j = a[i - 1 := tmp]"
      by (subst sift.simps) auto
    have "\<forall>c. 2 \<le> c \<and> c \<le> n \<and> c div 2 = i \<longrightarrow> k (a ! (c - 1)) \<le> k tmp"
      using False b by auto
    from place [OF this] b show ?thesis unfolding r by (auto simp: nth_list_update)
  next
    case True
    define j1 where "j1 = (if j < n \<and> k (a ! (j - 1)) < k (a ! j) then j + 1 else j)"
    have j1: "j1 div 2 = i" "j1 \<le> n" "2 \<le> j1" "i < j1"
      using True b by (auto simp: j1_def)
    have mx: "k (a ! (c - 1)) \<le> k (a ! (j1 - 1))" if "2 \<le> c" "c \<le> n" "c div 2 = i" for c
    proof -
      from that b have "c = j \<or> c = j + 1" by auto
      then show ?thesis using that by (auto simp: j1_def)
    qed
    show ?thesis
    proof (cases "k tmp < k (a ! (j1 - 1))")
      case False
      with True have r: "sift k n tmp a i j = a[i - 1 := tmp]"
        by (subst sift.simps) (auto simp: Let_def j1_def)
      have "\<forall>c. 2 \<le> c \<and> c \<le> n \<and> c div 2 = i \<longrightarrow> k (a ! (c - 1)) \<le> k tmp"
        using mx False by force
      from place [OF this] b show ?thesis unfolding r by (auto simp: nth_list_update)
    next
      case lt: True
      let ?a' = "a[i - 1 := a ! (j1 - 1)]"
      from True lt have r: "sift k n tmp a i j = sift k n tmp ?a' j1 (j1 + j1)"
        by (subst sift.simps) (auto simp: Let_def j1_def)
      have il: "i - 1 < length a" "j1 - 1 < length a" "i - 1 \<noteq> j1 - 1"
        using b j1 by auto
      have H': "\<forall>c. 2 \<le> c \<and> c \<le> n \<and> l \<le> c div 2 \<and> c div 2 \<noteq> j1 \<and> c \<noteq> j1 \<longrightarrow>
              k (?a' ! (c - 1)) \<le> k (?a' ! (c div 2 - 1))"
      proof (intro allI impI)
        fix c assume c: "2 \<le> c \<and> c \<le> n \<and> l \<le> c div 2 \<and> c div 2 \<noteq> j1 \<and> c \<noteq> j1"
        then have cl: "c - 1 < length a" "c div 2 - 1 < length a" using b by auto
        show "k (?a' ! (c - 1)) \<le> k (?a' ! (c div 2 - 1))"
        proof (cases "c div 2 = i")
          case True
          then have "c \<noteq> i" using c by auto
          then have "c - 1 \<noteq> i - 1" using c b by auto
          with True mx [of c] c il show ?thesis by (simp add: nth_list_update)
        next
          case False
          then have ne: "c div 2 - 1 \<noteq> i - 1" using c b by auto
          show ?thesis
          proof (cases "c = i")
            case True
            with c have "l \<le> i div 2" by simp
            with B j1 have "k (a ! (j1 - 1)) \<le> k (a ! (i div 2 - 1))" by simp
            with True ne il show ?thesis by (simp add: nth_list_update)
          next
            case False
            then have "c - 1 \<noteq> i - 1" using c b by auto
            with H c \<open>c div 2 \<noteq> i\<close> False ne show ?thesis by (simp add: nth_list_update)
          qed
        qed
      qed
      have B': "\<forall>c. 2 \<le> c \<and> c \<le> n \<and> c div 2 = j1 \<and> l \<le> j1 div 2 \<longrightarrow>
              k (?a' ! (c - 1)) \<le> k (?a' ! (j1 div 2 - 1))"
      proof (intro allI impI)
        fix c assume c: "2 \<le> c \<and> c \<le> n \<and> c div 2 = j1 \<and> l \<le> j1 div 2"
        then have "c \<noteq> i" "c div 2 \<noteq> i" "l \<le> c div 2" using j1 b by auto
        with H c have "k (a ! (c - 1)) \<le> k (a ! (j1 - 1))" by auto
        moreover have "j1 \<le> c" using c div_le_dividend [of c 2] by simp
        with j1 b have "c - 1 \<noteq> i - 1" by simp
        ultimately show "k (?a' ! (c - 1)) \<le> k (?a' ! (j1 div 2 - 1))"
          using j1 il by (simp add: nth_list_update)
      qed
      have T': "l \<le> j1 div 2 \<longrightarrow> k tmp \<le> k (?a' ! (j1 div 2 - 1))"
        using lt j1 il by (simp add: nth_list_update)
      have pre: "1 \<le> j1" "j1 \<le> n" "n \<le> length ?a'" "j1 + j1 = 2 * j1"
        using j1 b by simp_all
      from "1.IH" [OF True j1_def [unfolded Let_def] lt pre b(5) H' B' T']
      have ih: "hp k (sift k n tmp ?a' j1 (j1 + j1)) n l"
        "mset (sift k n tmp ?a' j1 (j1 + j1)) = mset (?a'[j1 - 1 := tmp])"
        "\<forall>t\<ge>n. sift k n tmp ?a' j1 (j1 + j1) ! t = ?a' ! t"
        by blast+
      have m: "mset (?a'[j1 - 1 := tmp]) = mset (a[i - 1 := tmp])"
        using il by (rule mset_move)
      have u: "\<forall>t\<ge>n. ?a' ! t = a ! t" using b by (auto simp: nth_list_update)
      from ih m u show ?thesis unfolding r by simp
    qed
  qed
qed


lemma hp_vacuous: "n div 2 < l \<Longrightarrow> hp k a n l"
proof (unfold hp_def, intro allI impI)
  fix c assume l: "n div 2 < l" and c: "2 \<le> c \<and> c \<le> n \<and> l \<le> c div 2"
  then have "c div 2 \<le> n div 2" by (simp add: div_le_mono)
  with l c show "k (a ! (c - 1)) \<le> k (a ! (c div 2 - 1))" by simp
qed

lemma heapify_spec:
  assumes "l \<le> n div 2" and "n \<le> length a" and "hp k a n (Suc l)"
  shows "hp k (heapify k n a l) n 1 \<and> mset (heapify k n a l) = mset a \<and>
         (\<forall>t\<ge>n. heapify k n a l ! t = a ! t)"
  using assms
proof (induction l arbitrary: a)
  case 0
  then show ?case by simp
next
  case (Suc l)
  let ?b = "sift k n (a ! l) a (Suc l) (2 * Suc l)"
  from Suc.prems have b: "1 \<le> Suc l" "Suc l \<le> n" "n \<le> length a" "2 * Suc l = 2 * Suc l"
    by auto
  have H: "\<forall>c. 2 \<le> c \<and> c \<le> n \<and> Suc l \<le> c div 2 \<and> c div 2 \<noteq> Suc l \<and> c \<noteq> Suc l \<longrightarrow>
              k (a ! (c - 1)) \<le> k (a ! (c div 2 - 1))"
    using Suc.prems(3) by (auto simp: hp_def)
  have B: "\<forall>c. 2 \<le> c \<and> c \<le> n \<and> c div 2 = Suc l \<and> Suc l \<le> Suc l div 2 \<longrightarrow>
              k (a ! (c - 1)) \<le> k (a ! (Suc l div 2 - 1))"
    by auto
  have T: "Suc l \<le> Suc l div 2 \<longrightarrow> k (a ! l) \<le> k (a ! (Suc l div 2 - 1))"
    by auto
  from sift_spec [OF b b(1) H B T]
  have s: "hp k ?b n (Suc l)" "mset ?b = mset (a[Suc l - 1 := a ! l])" "\<forall>t\<ge>n. ?b ! t = a ! t"
    by blast+
  from s(2) have m: "mset ?b = mset a" by simp
  then have len: "n \<le> length ?b" using Suc.prems(2) mset_eq_length by metis
  from Suc.prems(1) have l: "l \<le> n div 2" by simp
  from Suc.IH [OF l len s(1)] m s(3) show ?case by simp
qed

lemma hp_max:
  assumes "hp k a n 1"
  shows "1 \<le> j \<Longrightarrow> j \<le> n \<Longrightarrow> k (a ! (j - 1)) \<le> k (a ! 0)"
proof (induction j rule: less_induct)
  case (less j)
  show ?case
  proof (cases "j = 1")
    case True
    then show ?thesis by simp
  next
    case False
    with less.prems have j: "2 \<le> j" "j div 2 < j" "1 \<le> j div 2" "j div 2 \<le> n" by auto
    from assms j less.prems have "k (a ! (j - 1)) \<le> k (a ! (j div 2 - 1))"
      by (simp add: hp_def)
    moreover from less.IH [OF j(2) j(3) j(4)] have "k (a ! (j div 2 - 1)) \<le> k (a ! 0)" .
    ultimately show ?thesis by simp
  qed
qed

lemma sortdown_spec:
  assumes "n \<le> length a" and "hp k a n 1" and "sorted (map k (drop n a))"
    and "\<forall>x \<in> set (take n a). \<forall>y \<in> set (drop n a). k x \<le> k y"
  shows "sorted (map k (sortdown k a n)) \<and> mset (sortdown k a n) = mset a"
  using assms
proof (induction k a n rule: sortdown.induct)
  case (3 k a m)
  let ?n = "Suc (Suc m)"
  let ?a1 = "a[Suc m := a ! 0]"
  let ?b = "sift k (Suc m) (a ! Suc m) ?a1 1 2"
  note len = "3.prems"(1) and heap = "3.prems"(2) and suf = "3.prems"(3) and le = "3.prems"(4)
  have b: "(1::nat) \<le> 1" "1 \<le> Suc m" "Suc m \<le> length ?a1" "(2::nat) = 2 * 1"
    using len by simp_all
  have H: "\<forall>c. 2 \<le> c \<and> c \<le> Suc m \<and> 1 \<le> c div 2 \<and> c div 2 \<noteq> 1 \<and> c \<noteq> 1 \<longrightarrow>
              k (?a1 ! (c - 1)) \<le> k (?a1 ! (c div 2 - 1))"
  proof (intro allI impI)
    fix c assume c: "2 \<le> c \<and> c \<le> Suc m \<and> 1 \<le> c div 2 \<and> c div 2 \<noteq> 1 \<and> c \<noteq> 1"
    then have "k (a ! (c - 1)) \<le> k (a ! (c div 2 - 1))" using heap by (simp add: hp_def)
    moreover from c have "c - 1 \<noteq> Suc m" "c div 2 - 1 \<noteq> Suc m" by auto
    ultimately show "k (?a1 ! (c - 1)) \<le> k (?a1 ! (c div 2 - 1))" by simp
  qed
  have B: "\<forall>c. 2 \<le> c \<and> c \<le> Suc m \<and> c div 2 = 1 \<and> (1::nat) \<le> 1 div 2 \<longrightarrow>
              k (?a1 ! (c - 1)) \<le> k (?a1 ! (1 div 2 - 1))"
    by simp
  have T: "(1::nat) \<le> 1 div 2 \<longrightarrow> k (a ! Suc m) \<le> k (?a1 ! (1 div 2 - 1))"
    by simp
  from sift_spec [OF b b(1) H B T]
  have s: "hp k ?b (Suc m) 1" "mset ?b = mset (?a1[1 - 1 := a ! Suc m])"
    "\<forall>t\<ge>Suc m. ?b ! t = ?a1 ! t"
    by blast+
  have sw: "?a1[1 - 1 := a ! Suc m] = a[Suc m := a ! 0, 0 := a ! Suc m]" by simp
  have p0: "0 < length a" and p1: "Suc m < length a" using len by linarith+
  have m: "mset ?b = mset a"
    unfolding s(2) sw by (rule mset_swap [OF p0 p1])
  then have lb: "length ?b = length a" by (rule mset_eq_length)
  have dr: "drop (Suc m) ?b = a ! 0 # drop ?n a"
  proof (rule nth_equalityI)
    show "length (drop (Suc m) ?b) = length (a ! 0 # drop ?n a)"
      using len lb by simp
    fix t assume t: "t < length (drop (Suc m) ?b)"
    then have tl: "Suc m + t < length a" using lb by simp
    from s(3) have "?b ! (Suc m + t) = ?a1 ! (Suc m + t)" by simp
    then have "drop (Suc m) ?b ! t = ?a1 ! (Suc m + t)" using tl lb by simp
    also have "\<dots> = (a ! 0 # drop ?n a) ! t"
      using tl len by (cases t) (simp_all add: nth_list_update)
    finally show "drop (Suc m) ?b ! t = (a ! 0 # drop ?n a) ! t" .
  qed
  have a0: "a ! 0 \<in> set (take ?n a)"
  proof -
    from p0 have "a \<noteq> []" by simp
    with len have "0 < length (take ?n a)" "take ?n a ! 0 = a ! 0" by simp_all
    then show ?thesis by (metis nth_mem)
  qed
  have mx: "k x \<le> k (a ! 0)" if "x \<in> set (take ?n a)" for x
  proof -
    from that obtain t where t: "t < ?n" "x = a ! t"
      using len by (auto simp: in_set_conv_nth)
    from hp_max [OF heap, of "Suc t"] t show ?thesis by simp
  qed
  have tk: "set (take (Suc m) ?b) \<subseteq> set (take ?n a)"
  proof -
    have "mset (take (Suc m) ?b) + mset (drop (Suc m) ?b) = mset ?b"
      by (metis append_take_drop_id mset_append)
    moreover have "mset (take ?n a) + mset (drop ?n a) = mset a"
      by (metis append_take_drop_id mset_append)
    ultimately have "add_mset (a ! 0) (mset (take (Suc m) ?b)) + mset (drop ?n a)
        = mset (take ?n a) + mset (drop ?n a)"
      using m dr by simp
    then have "add_mset (a ! 0) (mset (take (Suc m) ?b)) = mset (take ?n a)"
      by (simp only: add_right_cancel)
    then have "set_mset (mset (take (Suc m) ?b)) \<subseteq> set_mset (mset (take ?n a))"
      by (metis set_mset_add_mset_insert subset_insertI)
    then show ?thesis by simp
  qed
  have suf': "sorted (map k (drop (Suc m) ?b))"
    unfolding dr using suf le a0 by simp
  have le': "\<forall>x \<in> set (take (Suc m) ?b). \<forall>y \<in> set (drop (Suc m) ?b). k x \<le> k y"
    unfolding dr using tk mx le by auto
  have len': "Suc m \<le> length ?b" using len lb by simp
  from "3.IH" [OF len' s(1) suf' le'] m show ?case by simp
next
  case (1 k a)
  then show ?case by simp
next
  case (2 k a)
  have "a = take 1 a @ drop 1 a" by simp
  then have "map k a = map k (take 1 a) @ map k (drop 1 a)" by (metis map_append)
  moreover have "sorted (map k (take 1 a) @ map k (drop 1 a))"
    using "2.prems" by (cases a) (auto simp: sorted_append)
  ultimately show ?case by simp
qed

lemma aheapsort_spec:
  "sorted (map k (aheapsort k xs))" "mset (aheapsort k xs) = mset xs"
proof -
  let ?n = "length xs"
  let ?h = "heapify k ?n xs (?n div 2)"
  have "hp k xs ?n (Suc (?n div 2))" by (rule hp_vacuous) simp
  from heapify_spec [OF le_refl le_refl this]
  have h: "hp k ?h ?n 1" "mset ?h = mset xs" by blast+
  then have l: "length ?h = ?n" using mset_eq_length by blast
  from l have "?n \<le> length ?h" "sorted (map k (drop ?n ?h))"
    "\<forall>x \<in> set (take ?n ?h). \<forall>y \<in> set (drop ?n ?h). k x \<le> k y"
    by simp_all
  from sortdown_spec [OF this(1) h(1) this(2,3)] h(2)
  show "sorted (map k (aheapsort k xs))" "mset (aheapsort k xs) = mset xs"
    by (simp_all add: aheapsort_def)
qed

lemma sorted_join:
  assumes "sorted (map k L)" and "sorted (map k R)"
    and "\<forall>x \<in> set L. k x \<le> k p" and "\<forall>y \<in> set R. k p \<le> k y"
  shows "sorted (map k (L @ [p] @ R))"
  using assms by (fastforce simp: sorted_append)

lemma partition_sides:
  assumes "3 \<le> length xs" and "partition_step k xs = (ys, p)"
  shows "\<forall>x \<in> set (take p ys). k x \<le> k (ys ! p)"
    and "\<forall>y \<in> set (drop (Suc p) ys). k (ys ! p) \<le> k y"
    and "mset (take p ys) + {#ys ! p#} + mset (drop (Suc p) ys) = mset xs"
proof -
  from partition_spec [OF assms]
  have sp: "mset ys = mset xs" "p < length xs - 1" "\<forall>i<p. k (ys ! i) \<le> k (ys ! p)"
    "\<forall>i. p < i \<and> i < length xs \<longrightarrow> k (ys ! p) \<le> k (ys ! i)"
    by blast+
  then have l: "length ys = length xs" using mset_eq_length by blast
  with sp(2) have pl: "p < length ys" by simp
  show "\<forall>x \<in> set (take p ys). k x \<le> k (ys ! p)"
  proof
    fix x assume "x \<in> set (take p ys)"
    then obtain i where "i < p" "x = ys ! i"
      using pl by (auto simp: in_set_conv_nth)
    with sp(3) show "k x \<le> k (ys ! p)" by simp
  qed
  show "\<forall>y \<in> set (drop (Suc p) ys). k (ys ! p) \<le> k y"
  proof
    fix y assume "y \<in> set (drop (Suc p) ys)"
    then obtain t where "t < length ys - Suc p" "y = ys ! (Suc p + t)"
      by (auto simp: in_set_conv_nth)
    then have "Suc p + t < length ys" "y = ys ! (Suc p + t)" by simp_all
    with sp(4) l show "k (ys ! p) \<le> k y" by simp
  qed
  have "mset ys = mset (take p ys @ ys ! p # drop (Suc p) ys)"
    by (rule arg_cong [where f = mset], rule id_take_nth_drop [OF pl])
  also have "\<dots> = mset (take p ys) + {#ys ! p#} + mset (drop (Suc p) ys)"
    by simp
  finally have "mset ys = mset (take p ys) + {#ys ! p#} + mset (drop (Suc p) ys)" .
  with sp(1) show "mset (take p ys) + {#ys ! p#} + mset (drop (Suc p) ys) = mset xs" by simp
qed

lemma aquicksort_spec:
  "sorted (map k (aquicksort k popped cdepth xs)) \<and> mset (aquicksort k popped cdepth xs) = mset xs"
proof (induction k popped cdepth xs rule: aquicksort.induct)
  case (1 k popped cdepth xs)
  show ?case
  proof (cases "popped \<and> cdepth < 0")
    case True
    then have "aquicksort k popped cdepth xs = aheapsort k xs"
      by (subst aquicksort.simps) simp
    then show ?thesis by (simp add: aheapsort_spec)
  next
    case False
    show ?thesis
    proof (cases "16 < length xs - 1")
      case small: False
      with False have "aquicksort k popped cdepth xs = insertion_sort k xs"
        by (subst aquicksort.simps) auto
      then show ?thesis by (simp add: insertion_sort_spec)
    next
      case big: True
      then have three: "3 \<le> length xs" by simp
      obtain ys p where part: "partition_step k xs = (ys, p)" by (cases "partition_step k xs")
      note sides = partition_sides [OF three part]
      show ?thesis
      proof (cases "p < length xs - 1 - p")
        case True
        let ?L = "aquicksort k False (cdepth - 1) (take p ys)"
        let ?R = "aquicksort k True (cdepth - 1) (drop (Suc p) ys)"
        from False big part True have e: "aquicksort k popped cdepth xs = ?L @ [ys ! p] @ ?R"
          by (subst aquicksort.simps) auto
        from "1.IH"(1) [OF False big refl part [symmetric] True]
        have L: "sorted (map k ?L)" "mset ?L = mset (take p ys)" by simp_all
        from "1.IH"(2) [OF False big refl part [symmetric] True]
        have R: "sorted (map k ?R)" "mset ?R = mset (drop (Suc p) ys)" by simp_all
        from L(2) R(2) have "set ?L = set (take p ys)" "set ?R = set (drop (Suc p) ys)"
          by (metis mset_eq_setD)+
        with sides have "\<forall>x \<in> set ?L. k x \<le> k (ys ! p)" "\<forall>y \<in> set ?R. k (ys ! p) \<le> k y"
          by simp_all
        from sorted_join [OF L(1) R(1) this] have "sorted (map k (?L @ [ys ! p] @ ?R))" .
        moreover have "mset (?L @ [ys ! p] @ ?R) = mset xs"
          using L(2) R(2) sides(3) by simp
        ultimately show ?thesis unfolding e by simp
      next
        case nb: False
        let ?L = "aquicksort k True (cdepth - 1) (take p ys)"
        let ?R = "aquicksort k False (cdepth - 1) (drop (Suc p) ys)"
        from False big part nb have e: "aquicksort k popped cdepth xs = ?L @ [ys ! p] @ ?R"
          by (subst aquicksort.simps) auto
        from "1.IH"(3) [OF False big refl part [symmetric] nb]
        have L: "sorted (map k ?L)" "mset ?L = mset (take p ys)" by simp_all
        from "1.IH"(4) [OF False big refl part [symmetric] nb]
        have R: "sorted (map k ?R)" "mset ?R = mset (drop (Suc p) ys)" by simp_all
        from L(2) R(2) have "set ?L = set (take p ys)" "set ?R = set (drop (Suc p) ys)"
          by (metis mset_eq_setD)+
        with sides have "\<forall>x \<in> set ?L. k x \<le> k (ys ! p)" "\<forall>y \<in> set ?R. k (ys ! p) \<le> k y"
          by simp_all
        from sorted_join [OF L(1) R(1) this] have "sorted (map k (?L @ [ys ! p] @ ?R))" .
        moreover have "mset (?L @ [ys ! p] @ ?R) = mset xs"
          using L(2) R(2) sides(3) by simp
        ultimately show ?thesis unfolding e by simp
      qed
    qed
  qed
qed

lemma numpy_argsort_spec:
  "sorted (map k (numpy_argsort k xs))" "mset (numpy_argsort k xs) = mset xs"
  by (simp_all add: numpy_argsort_def aquicksort_spec)

lemma sort_values_spec:
  "mset (sort_values rs) = mset rs" "sorted_wrt date_le (sort_values rs)"
proof -
  let ?A = "numpy_argsort stamp (filter (\<lambda>r. Date r \<noteq> None) rs)"
  let ?B = "filter (\<lambda>r. Date r = None) rs"
  have mA: "mset ?A = mset (filter (\<lambda>r. Date r \<noteq> None) rs)"
    by (rule numpy_argsort_spec)
  then have sA: "set ?A = set (filter (\<lambda>r. Date r \<noteq> None) rs)"
    by (rule mset_eq_setD)
  have "mset (filter (\<lambda>r. Date r \<noteq> None) rs) + mset ?B = mset rs"
    by (induction rs) auto
  with mA show "mset (sort_values rs) = mset rs"
    by (simp add: sort_values_def)
  have "sorted (map stamp ?A)" by (rule numpy_argsort_spec)
  then have "sorted_wrt (\<lambda>a b. stamp a \<le> stamp b) ?A"
    by (simp add: sorted_map)
  then have a: "sorted_wrt date_le ?A"
  proof (rule sorted_wrt_mono_rel [rotated])
    fix x y assume "x \<in> set ?A" "y \<in> set ?A" "stamp x \<le> stamp y"
    with sA show "date_le x y" by (auto simp: date_le_def stamp_def)
  qed
  have "sorted_wrt (\<lambda>a b. True) ?B" by (induction rs) auto
  then have b: "sorted_wrt date_le ?B"
  proof (rule sorted_wrt_mono_rel [rotated])
    fix x y assume "y \<in> set ?B"
    then show "date_le x y" by (simp add: date_le_def)
  qed
  have c: "\<forall>x \<in> set ?A. \<forall>y \<in> set ?B. date_le x y"
    by (simp add: date_le_def)
  from a b c show "sorted_wrt date_le (sort_values rs)"
    by (simp add: sort_values_def sorted_wrt_append)
qed

section \<open>Facts about the aggregates\<close>

lemma mean_skipna_None: "mean_skipna xs = None \<longleftrightarrow> (\<forall>x \<in> set xs. x = None)"
  by (simp add: mean_skipna_def Let_def dropna_vals_empty)

lemma city_mean_Some_iff:
  "city_mean rs c \<noteq> None \<longleftrightarrow> (\<exists>r \<in> set rs. City r = Some c \<and> AQI r \<noteq> None)"
  by (auto simp: city_mean_def mean_skipna_None)

lemma set_group_keys: "set (group_keys rs) = {c. \<exists>r \<in> set rs. City r = Some c}"
  by (force simp: group_keys_def dropna_vals_set image_iff)

lemma group_keys_strict: "sorted_wrt (<) (group_keys rs)"
  by (simp add: group_keys_def strict_sorted_iff)

lemma idxmax_scan_mem:
  "idxmax_scan best s = Some (k, v) \<Longrightarrow> best = Some (k, v) \<or> (k, Some v) \<in> set s"
  by (induction best s rule: idxmax_scan.induct) (auto split: if_splits)

lemma idxmax_scan_ge_best:
  "idxmax_scan (Some (bk, bv)) s = Some (k, v) \<Longrightarrow> bv \<le> v"
  by (induction "Some (bk, bv)" s arbitrary: bk bv rule: idxmax_scan.induct)
     (force split: if_splits)+

lemma idxmax_scan_ge:
  "idxmax_scan best s = Some (k, v) \<Longrightarrow> (k', Some m) \<in> set s \<Longrightarrow> m \<le> v"
proof (induction best s rule: idxmax_scan.induct)
  case (4 bk bv k1 v1 s)
  show ?case
  proof (cases "(k', Some m) = (k1, Some v1)")
    case True
    from "4.prems"(1) have "(if bv < v1 then v1 else bv) \<le> v"
      using idxmax_scan_ge_best [of "if bv < v1 then k1 else bk" "if bv < v1 then v1 else bv" s k v]
      by (simp split: if_splits)
    with True show ?thesis by (auto split: if_splits)
  next
    case False
    with "4.prems" have "(k', Some m) \<in> set s" by auto
    with 4 show ?thesis by simp
  qed
next
  case (3 k1 v1 s)
  show ?case
  proof (cases "(k', Some m) = (k1, Some v1)")
    case True
    with "3.prems"(1) show ?thesis using idxmax_scan_ge_best [of k1 v1 s k v] by simp
  next
    case False
    with "3.prems" have "(k', Some m) \<in> set s" by auto
    with 3 show ?thesis by simp
  qed
qed auto

lemma idxmax_scan_Some: "idxmax_scan (Some b) s \<noteq> None"
  by (induction "Some b" s arbitrary: b rule: idxmax_scan.induct) auto

lemma idxmax_scan_None: "idxmax_scan None s = None \<longleftrightarrow> (\<forall>(k, v) \<in> set s. v = None)"
  by (induction "None :: (string \<times> real) option" s rule: idxmax_scan.induct)
     (auto simp: idxmax_scan_Some)

lemma idxmax_scan_first_best:
  "idxmax_scan (Some (bk, bv)) s = Some (k, v) \<Longrightarrow> sorted_wrt (<) (bk # map fst s) \<Longrightarrow>
   (bv = v \<longrightarrow> k = bk) \<and> (\<forall>k'. (k', Some v) \<in> set s \<longrightarrow> k \<le> k')"
proof (induction "Some (bk, bv)" s arbitrary: bk bv rule: idxmax_scan.induct)
  case (1)
  then show ?case by simp
next
  case (2 k1 s)
  then show ?case by auto
next
  case (4 bk bv k1 v1 s)
  show ?case
  proof (cases "bv < v1")
    case True
    with "4.prems" have r: "idxmax_scan (Some (k1, v1)) s = Some (k, v)" by simp
    from "4.prems" have srt: "sorted_wrt (<) (k1 # map fst s)" by simp
    from "4.hyps"(1)[of k1 v1] True r srt
    have ih: "(v1 = v \<longrightarrow> k = k1) \<and> (\<forall>k'. (k', Some v) \<in> set s \<longrightarrow> k \<le> k')" by simp
    from idxmax_scan_ge_best [OF r] True have "bv < v" by simp
    with ih show ?thesis by auto
  next
    case False
    with "4.prems" have r: "idxmax_scan (Some (bk, bv)) s = Some (k, v)" by simp
    from "4.prems" have srt: "sorted_wrt (<) (bk # map fst s)" by auto
    from "4.hyps"(1)[of bk bv] False r srt
    have ih: "(bv = v \<longrightarrow> k = bk) \<and> (\<forall>k'. (k', Some v) \<in> set s \<longrightarrow> k \<le> k')" by simp
    from idxmax_scan_ge_best [OF r] have "bv \<le> v" .
    from "4.prems" have "bk < k1" by simp
    with ih False \<open>bv \<le> v\<close> show ?thesis by auto
  qed
qed

lemma idxmax_scan_first:
  "idxmax_scan None s = Some (k, v) \<Longrightarrow> sorted_wrt (<) (map fst s) \<Longrightarrow>
   (k', Some v) \<in> set s \<Longrightarrow> k \<le> k'"
proof (induction s)
  case Nil
  then show ?case by simp
next
  case (Cons a s)
  obtain k1 o1 where a: "a = (k1, o1)" by (cases a)
  show ?case
  proof (cases o1)
    case None
    with Cons a show ?thesis by auto
  next
    case (Some v1)
    with Cons.prems a have r: "idxmax_scan (Some (k1, v1)) s = Some (k, v)" by simp
    from Cons.prems a have srt: "sorted_wrt (<) (k1 # map fst s)" by simp
    from idxmax_scan_first_best [OF r srt]
    have fb: "(v1 = v \<longrightarrow> k = k1) \<and> (\<forall>k'. (k', Some v) \<in> set s \<longrightarrow> k \<le> k')" .
    from Cons.prems(3) a Some have "(k' = k1 \<and> v = v1) \<or> (k', Some v) \<in> set s" by auto
    with fb show ?thesis by auto
  qed
qed

lemma idxmin_scan_mem:
  "idxmin_scan best s = Some (k, v) \<Longrightarrow> best = Some (k, v) \<or> (k, Some v) \<in> set s"
  by (induction best s rule: idxmin_scan.induct) (auto split: if_splits)

lemma idxmin_scan_le_best:
  "idxmin_scan (Some (bk, bv)) s = Some (k, v) \<Longrightarrow> v \<le> bv"
  by (induction "Some (bk, bv)" s arbitrary: bk bv rule: idxmin_scan.induct)
     (force split: if_splits)+

lemma idxmin_scan_le:
  "idxmin_scan best s = Some (k, v) \<Longrightarrow> (k', Some m) \<in> set s \<Longrightarrow> v \<le> m"
proof (induction best s rule: idxmin_scan.induct)
  case (4 bk bv k1 v1 s)
  show ?case
  proof (cases "(k', Some m) = (k1, Some v1)")
    case True
    from "4.prems"(1) have "v \<le> (if v1 < bv then v1 else bv)"
      using idxmin_scan_le_best [of "if v1 < bv then k1 else bk" "if v1 < bv then v1 else bv" s k v]
      by (simp split: if_splits)
    with True show ?thesis by (auto split: if_splits)
  next
    case False
    with "4.prems" have "(k', Some m) \<in> set s" by auto
    with 4 show ?thesis by simp
  qed
next
  case (3 k1 v1 s)
  show ?case
  proof (cases "(k', Some m) = (k1, Some v1)")
    case True
    with "3.prems"(1) show ?thesis using idxmin_scan_le_best [of k1 v1 s k v] by simp
  next
    case False
    with "3.prems" have "(k', Some m) \<in> set s" by auto
    with 3 show ?thesis by simp
  qed
qed auto

lemma idxmin_scan_Some: "idxmin_scan (Some b) s \<noteq> None"
  by (induction "Some b" s arbitrary: b rule: idxmin_scan.induct) auto

lemma idxmin_scan_None: "idxmin_scan None s = None \<longleftrightarrow> (\<forall>(k, v) \<in> set s. v = None)"
  by (induction "None :: (string \<times> real) option" s rule: idxmin_scan.induct)
     (auto simp: idxmin_scan_Some)

lemma idxmin_scan_first_best:
  "idxmin_scan (Some (bk, bv)) s = Some (k, v) \<Longrightarrow> sorted_wrt (<) (bk # map fst s) \<Longrightarrow>
   (bv = v \<longrightarrow> k = bk) \<and> (\<forall>k'. (k', Some v) \<in> set s \<longrightarrow> k \<le> k')"
proof (induction "Some (bk, bv)" s arbitrary: bk bv rule: idxmin_scan.induct)
  case (1)
  then show ?case by simp
next
  case (2 k1 s)
  then show ?case by auto
next
  case (4 bk bv k1 v1 s)
  show ?case
  proof (cases "v1 < bv")
    case True
    with "4.prems" have r: "idxmin_scan (Some (k1, v1)) s = Some (k, v)" by simp
    from "4.prems" have srt: "sorted_wrt (<) (k1 # map fst s)" by simp
    from "4.hyps"(1)[of k1 v1] True r srt
    have ih: "(v1 = v \<longrightarrow> k = k1) \<and> (\<forall>k'. (k', Some v) \<in> set s \<longrightarrow> k \<le> k')" by simp
    from idxmin_scan_le_best [OF r] True have "v < bv" by simp
    with ih show ?thesis by auto
  next
    case False
    with "4.prems" have r: "idxmin_scan (Some (bk, bv)) s = Some (k, v)" by simp
    from "4.prems" have srt: "sorted_wrt (<) (bk # map fst s)" by auto
    from "4.hyps"(1)[of bk bv] False r srt
    have ih: "(bv = v \<longrightarrow> k = bk) \<and> (\<forall>k'. (k', Some v) \<in> set s \<longrightarrow> k \<le> k')" by simp
    from idxmin_scan_le_best [OF r] have "v \<le> bv" .
    from "4.prems" have "bk < k1" by simp
    with ih False \<open>v \<le> bv\<close> show ?thesis by auto
  qed
qed

lemma idxmin_scan_first:
  "idxmin_scan None s = Some (k, v) \<Longrightarrow> sorted_wrt (<) (map fst s) \<Longrightarrow>
   (k', Some v) \<in> set s \<Longrightarrow> k \<le> k'"
proof (induction s)
  case Nil
  then show ?case by simp
next
  case (Cons a s)
  obtain k1 o1 where a: "a = (k1, o1)" by (cases a)
  show ?case
  proof (cases o1)
    case None
    with Cons a show ?thesis by auto
  next
    case (Some v1)
    with Cons.prems a have r: "idxmin_scan (Some (k1, v1)) s = Some (k, v)" by simp
    from Cons.prems a have srt: "sorted_wrt (<) (k1 # map fst s)" by simp
    from idxmin_scan_first_best [OF r srt]
    have fb: "(v1 = v \<longrightarrow> k = k1) \<and> (\<forall>k'. (k', Some v) \<in> set s \<longrightarrow> k \<le> k')" .
    from Cons.prems(3) a Some have "(k' = k1 \<and> v = v1) \<or> (k', Some v) \<in> set s" by auto
    with fb show ?thesis by auto
  qed
qed


lemma groupby_entry:
  "(c, m) \<in> set (groupby_City_AQI_mean rs) \<longleftrightarrow> c \<in> set (group_keys rs) \<and> m = city_mean rs c"
  by (auto simp: groupby_City_AQI_mean_def)

lemma groupby_keys: "map fst (groupby_City_AQI_mean rs) = group_keys rs"
  by (simp add: groupby_City_AQI_mean_def comp_def)

lemma city_mean_in_keys: "city_mean rs c = Some m \<Longrightarrow> c \<in> set (group_keys rs)"
  using city_mean_Some_iff [of rs c] by (auto simp: set_group_keys)

lemma idxmax_groupby:
  assumes "idxmax (groupby_City_AQI_mean rs) = Some c"
  shows "\<exists>m. city_mean rs c = Some m \<and>
           (\<forall>c' m'. city_mean rs c' = Some m' \<longrightarrow> m' \<le> m \<and> (m' = m \<longrightarrow> c \<le> c'))"
proof -
  let ?s = "groupby_City_AQI_mean rs"
  from assms obtain m where r: "idxmax_scan None ?s = Some (c, m)"
    by (auto simp: idxmax_def)
  from idxmax_scan_mem [OF r] have "(c, Some m) \<in> set ?s" by simp
  then have cm: "city_mean rs c = Some m" by (simp add: groupby_entry)
  have srt: "sorted_wrt (<) (map fst ?s)" by (simp add: groupby_keys group_keys_strict)
  have "m' \<le> m \<and> (m' = m \<longrightarrow> c \<le> c')" if h: "city_mean rs c' = Some m'" for c' m'
  proof -
    from h have mem: "(c', Some m') \<in> set ?s"
      by (simp add: groupby_entry city_mean_in_keys)
    from idxmax_scan_ge [OF r mem] have "m' \<le> m" .
    moreover have "c \<le> c'" if "m' = m"
      using idxmax_scan_first [OF r srt] mem that by simp
    ultimately show ?thesis by simp
  qed
  with cm show ?thesis by blast
qed

lemma idxmin_groupby:
  assumes "idxmin (groupby_City_AQI_mean rs) = Some c"
  shows "\<exists>m. city_mean rs c = Some m \<and>
           (\<forall>c' m'. city_mean rs c' = Some m' \<longrightarrow> m \<le> m' \<and> (m' = m \<longrightarrow> c \<le> c'))"
proof -
  let ?s = "groupby_City_AQI_mean rs"
  from assms obtain m where r: "idxmin_scan None ?s = Some (c, m)"
    by (auto simp: idxmin_def)
  from idxmin_scan_mem [OF r] have "(c, Some m) \<in> set ?s" by simp
  then have cm: "city_mean rs c = Some m" by (simp add: groupby_entry)
  have srt: "sorted_wrt (<) (map fst ?s)" by (simp add: groupby_keys group_keys_strict)
  have "m \<le> m' \<and> (m' = m \<longrightarrow> c \<le> c')" if h: "city_mean rs c' = Some m'" for c' m'
  proof -
    from h have mem: "(c', Some m') \<in> set ?s"
      by (simp add: groupby_entry city_mean_in_keys)
    from idxmin_scan_le [OF r mem] have "m \<le> m'" .
    moreover have "c \<le> c'" if "m' = m"
      using idxmin_scan_first [OF r srt] mem that by simp
    ultimately show ?thesis by simp
  qed
  with cm show ?thesis by blast
qed

lemma idxmax_groupby_exists:
  "city_mean rs c0 \<noteq> None \<Longrightarrow> \<exists>c. idxmax (groupby_City_AQI_mean rs) = Some c"
proof -
  assume "city_mean rs c0 \<noteq> None"
  then obtain m0 where "city_mean rs c0 = Some m0" by auto
  then have "(c0, Some m0) \<in> set (groupby_City_AQI_mean rs)"
    by (simp add: groupby_entry city_mean_in_keys)
  then have "idxmax_scan None (groupby_City_AQI_mean rs) \<noteq> None"
    by (auto simp: idxmax_scan_None)
  then show ?thesis by (auto simp: idxmax_def)
qed

lemma idxmin_groupby_exists:
  "city_mean rs c0 \<noteq> None \<Longrightarrow> \<exists>c. idxmin (groupby_City_AQI_mean rs) = Some c"
proof -
  assume "city_mean rs c0 \<noteq> None"
  then obtain m0 where "city_mean rs c0 = Some m0" by auto
  then have "(c0, Some m0) \<in> set (groupby_City_AQI_mean rs)"
    by (simp add: groupby_entry city_mean_in_keys)
  then have "idxmin_scan None (groupby_City_AQI_mean rs) \<noteq> None"
    by (auto simp: idxmin_scan_None)
  then show ?thesis by (auto simp: idxmin_def)
qed

section \<open>Facts about the two guards\<close>

text \<open>
  What the guard of line 95 and the guard of line 163 let through: the first looks at the
  column and at the number of rows, the second at the readings of the city.
\<close>

lemma avg_aqi_Unavailable_iff:
  "avg_aqi v = Unavailable \<longleftrightarrow> ''AQI'' \<notin> set (columns v) \<or> rows v = []"
  by (auto simp: avg_aqi_def kpi_guard_def empty_frame_def)

lemma avg_aqi_mean:
  assumes "kpi_guard v" and "dropna_vals (map AQI (rows v)) \<noteq> []"
  shows "avg_aqi v = Metric (Some (sum_list (dropna_vals (map AQI (rows v))) /
                                    real (length (dropna_vals (map AQI (rows v))))))"
  using assms by (simp add: avg_aqi_def mean_skipna_def Let_def)

lemma alert_for_NoRecentData_iff:
  "alert_for v c = NoRecentData \<longleftrightarrow>
     ''AQI'' \<notin> set (columns v) \<or> (\<forall>r \<in> set (rows v). City r = Some c \<longrightarrow> AQI r = None)"
  by (auto simp: alert_for_def city_data_def Let_def dropna_vals_empty)

section \<open>Properties\<close>

text \<open>
  C1, as the script has it. The worst city has the greatest per-city mean and the best city
  the least. When several cities share that mean, the one returned is the first in the
  order of the grouped table, which is ascending order of the city name, not the order of
  the rows. Whenever the metrics are computed and some city has a reading, both cities are
  found. The functions are pure: equal inputs give equal outputs.
\<close>

theorem extreme_city_ties:
  "(worst_city v = Metric (Some c) \<longrightarrow>
      (\<exists>m. city_mean (rows v) c = Some m \<and>
         (\<forall>c' m'. city_mean (rows v) c' = Some m' \<longrightarrow> m' \<le> m \<and> (m' = m \<longrightarrow> c \<le> c')))) \<and>
   (best_city v = Metric (Some c) \<longrightarrow>
      (\<exists>m. city_mean (rows v) c = Some m \<and>
         (\<forall>c' m'. city_mean (rows v) c' = Some m' \<longrightarrow> m \<le> m' \<and> (m' = m \<longrightarrow> c \<le> c')))) \<and>
   (kpi_guard v \<and> city_mean (rows v) c0 \<noteq> None \<longrightarrow>
      (\<exists>w b. worst_city v = Metric (Some w) \<and> best_city v = Metric (Some b)))"
proof (intro conjI impI)
  assume "worst_city v = Metric (Some c)"
  then have "idxmax (groupby_City_AQI_mean (rows v)) = Some c"
    by (simp add: worst_city_def split: if_splits)
  then show "\<exists>m. city_mean (rows v) c = Some m \<and>
         (\<forall>c' m'. city_mean (rows v) c' = Some m' \<longrightarrow> m' \<le> m \<and> (m' = m \<longrightarrow> c \<le> c'))"
    by (rule idxmax_groupby)
next
  assume "best_city v = Metric (Some c)"
  then have "idxmin (groupby_City_AQI_mean (rows v)) = Some c"
    by (simp add: best_city_def split: if_splits)
  then show "\<exists>m. city_mean (rows v) c = Some m \<and>
         (\<forall>c' m'. city_mean (rows v) c' = Some m' \<longrightarrow> m \<le> m' \<and> (m' = m \<longrightarrow> c \<le> c'))"
    by (rule idxmin_groupby)
next
  assume h: "kpi_guard v \<and> city_mean (rows v) c0 \<noteq> None"
  then show "\<exists>w b. worst_city v = Metric (Some w) \<and> best_city v = Metric (Some b)"
    using idxmax_groupby_exists [of "rows v" c0] idxmin_groupby_exists [of "rows v" c0]
    by (auto simp: worst_city_def best_city_def)
qed

text \<open>
  Mumbai and Delhi both average 100, Mumbai's row coming first. Delhi is returned as worst
  and as best, and Delhi is the smaller name.
\<close>

theorem extreme_city_ties_witness:
  "worst_city tied_view = Metric (Some ''Delhi'') \<and>
   best_city tied_view = Metric (Some ''Delhi'') \<and>
   kpi_guard tied_view \<and>
   city_mean (rows tied_view) ''Mumbai'' = Some 100 \<and>
   city_mean (rows tied_view) ''Delhi'' = Some 100 \<and>
   ''Delhi'' \<le> ''Mumbai''"
proof -
  have w: "worst_city tied_view = Metric (Some ''Delhi'')"
    by (simp add: tied_view_def table_def cols_def reading_def worst_city_def kpi_guard_def
        empty_frame_def groupby_City_AQI_mean_def group_keys_def city_mean_def
        mean_skipna_def idxmax_def)
  have b: "best_city tied_view = Metric (Some ''Delhi'')"
    by (simp add: tied_view_def table_def cols_def reading_def best_city_def kpi_guard_def
        empty_frame_def groupby_City_AQI_mean_def group_keys_def city_mean_def
        mean_skipna_def idxmin_def)
  have g: "kpi_guard tied_view"
    by (simp add: tied_view_def table_def cols_def kpi_guard_def empty_frame_def)
  have m: "city_mean (rows tied_view) ''Mumbai'' = Some 100"
    by (simp add: tied_view_def table_def reading_def city_mean_def mean_skipna_def)
  have d: "city_mean (rows tied_view) ''Delhi'' = Some 100"
    by (simp add: tied_view_def table_def reading_def city_mean_def mean_skipna_def)
  from extreme_city_ties [of tied_view "''Delhi''" "''Mumbai''"] w
  obtain m0 where m0: "city_mean (rows tied_view) ''Delhi'' = Some m0"
    and all: "\<forall>c' m'. city_mean (rows tied_view) c' = Some m' \<longrightarrow>
                m' \<le> m0 \<and> (m' = m0 \<longrightarrow> ''Delhi'' \<le> c')"
    by blast
  from m0 d have "m0 = 100" by simp
  with all m have le: "''Delhi'' \<le> ''Mumbai''" by blast
  from w b g m d le show ?thesis by blast
qed

text \<open>
  C1 as stated fails on the same table: the city the row order would pick is Mumbai, whose
  row is first, and the script returns Delhi.
\<close>

theorem extreme_city_row_order_counterexample:
  "city_mean (rows tied_view) ''Mumbai'' = Some 100 \<and>
   city_mean (rows tied_view) ''Delhi'' = Some 100 \<and>
   spec_first_in_row_order (rows tied_view) 100 = Some ''Mumbai'' \<and>
   worst_city tied_view = Metric (Some ''Delhi'') \<and>
   best_city tied_view = Metric (Some ''Delhi'')"
  by (simp add: tied_view_def table_def cols_def reading_def worst_city_def best_city_def kpi_guard_def
      empty_frame_def groupby_City_AQI_mean_def group_keys_def city_mean_def mean_skipna_def
      idxmax_def idxmin_def spec_first_in_row_order_def)

text \<open>
  C2 on a view where Delhi's last row has no reading and an earlier row has one. The guard
  of line 163 finds the earlier reading, line 164 takes the last cell, which is NaN, and
  every comparison with NaN being false the chain ends in its last branch: the city gets a
  Severe banner, not the message that there is no data.
\<close>

theorem alert_null_last_row:
  "rows (city_data null_last_view ''Delhi'') =
     [reading ''Delhi'' 1 (Some 45), reading ''Delhi'' 2 None] \<and>
   AQI (last (rows (city_data null_last_view ''Delhi''))) = None \<and>
   alert_for null_last_view ''Delhi'' = Banner Severe None \<and>
   alert_for null_last_view ''Delhi'' \<noteq> NoRecentData"
  by (simp add: null_last_view_def table_def cols_def reading_def city_data_def alert_for_def
      classify_def)

text \<open>
  C3 on a view whose only row has no reading. The table has the \<^verbatim>\<open>AQI\<close> column and is not
  empty, so the guard of line 95 holds and the average is computed: it is NaN, shown as a
  metric, and not the warning of line 104. The guard of the alerts, line 163, does look at
  the readings and reports no data for the same view.
\<close>

theorem avg_aqi_all_null:
  "dropna_vals (map AQI (rows all_null_view)) = [] \<and>
   avg_aqi all_null_view = Metric None \<and>
   avg_aqi all_null_view \<noteq> Unavailable \<and>
   alert_for all_null_view ''Delhi'' = NoRecentData"
  by (simp add: all_null_view_def table_def cols_def reading_def avg_aqi_def kpi_guard_def
      empty_frame_def mean_skipna_def alert_for_def city_data_def)

text \<open>
  C4, as the script has it. The table behind the bar chart has one entry for each city that
  has a row in the view, no city twice. The mean of an entry is a number exactly when the
  city has a reading that is not missing; a city whose readings are all missing keeps its
  entry, with a missing mean. Such a city is never the worst or the best city.
\<close>

theorem per_city_entries:
  "aqi_avg v = Some t \<longrightarrow>
     set (map fst t) = {c. \<exists>r \<in> set (rows v). City r = Some c} \<and>
     distinct (map fst t) \<and>
     (\<forall>c m. (c, m) \<in> set t \<longrightarrow>
        (m \<noteq> None \<longleftrightarrow> (\<exists>r \<in> set (rows v). City r = Some c \<and> AQI r \<noteq> None))) \<and>
     (worst_city v = Metric (Some c) \<or> best_city v = Metric (Some c) \<longrightarrow>
        (\<exists>r \<in> set (rows v). City r = Some c \<and> AQI r \<noteq> None))"
proof
  assume "aqi_avg v = Some t"
  then have t: "t = groupby_City_AQI_mean (rows v)"
    by (simp add: aqi_avg_def split: if_splits)
  have a: "set (map fst t) = {c. \<exists>r \<in> set (rows v). City r = Some c}"
    by (simp only: t groupby_keys set_group_keys)
  have b: "distinct (map fst t)"
    unfolding t groupby_keys using group_keys_strict [of "rows v"] by (simp add: strict_sorted_iff)
  have c: "m \<noteq> None \<longleftrightarrow> (\<exists>r \<in> set (rows v). City r = Some c \<and> AQI r \<noteq> None)"
    if "(c, m) \<in> set t" for c m
    using that city_mean_Some_iff [of "rows v" c] by (simp add: t groupby_entry)
  have d: "\<exists>r \<in> set (rows v). City r = Some c \<and> AQI r \<noteq> None"
    if "worst_city v = Metric (Some c) \<or> best_city v = Metric (Some c)"
  proof -
    from that have "idxmax (groupby_City_AQI_mean (rows v)) = Some c \<or>
        idxmin (groupby_City_AQI_mean (rows v)) = Some c"
      by (auto simp: worst_city_def best_city_def split: if_splits)
    then have "city_mean (rows v) c \<noteq> None"
      using idxmax_groupby [of "rows v" c] idxmin_groupby [of "rows v" c] by auto
    then show ?thesis by (simp only: city_mean_Some_iff)
  qed
  from a b c d show "set (map fst t) = {c. \<exists>r \<in> set (rows v). City r = Some c} \<and>
     distinct (map fst t) \<and>
     (\<forall>c m. (c, m) \<in> set t \<longrightarrow>
        (m \<noteq> None \<longleftrightarrow> (\<exists>r \<in> set (rows v). City r = Some c \<and> AQI r \<noteq> None))) \<and>
     (worst_city v = Metric (Some c) \<or> best_city v = Metric (Some c) \<longrightarrow>
        (\<exists>r \<in> set (rows v). City r = Some c \<and> AQI r \<noteq> None))"
    by blast
qed

text \<open>
  Delhi has one row and no reading, Mumbai one reading of 80: both are in the table, and
  Mumbai is the worst city.
\<close>

theorem per_city_entries_witness:
  "aqi_avg null_city_view = Some [(''Delhi'', None), (''Mumbai'', Some 80)] \<and>
   worst_city null_city_view = Metric (Some ''Mumbai'') \<and>
   distinct (map fst [(''Delhi'', None :: real option), (''Mumbai'', Some 80)]) \<and>
   AQI (reading ''Mumbai'' 1 (Some 80)) \<noteq> None"
proof -
  have a: "aqi_avg null_city_view = Some [(''Delhi'', None), (''Mumbai'', Some 80)]"
    by (simp add: null_city_view_def table_def cols_def reading_def aqi_avg_def
        groupby_City_AQI_mean_def group_keys_def city_mean_def mean_skipna_def)
  have w: "worst_city null_city_view = Metric (Some ''Mumbai'')"
    by (simp add: null_city_view_def table_def cols_def reading_def worst_city_def kpi_guard_def
        empty_frame_def groupby_City_AQI_mean_def group_keys_def city_mean_def
        mean_skipna_def idxmax_def)
  from per_city_entries [of null_city_view "[(''Delhi'', None), (''Mumbai'', Some 80)]" "''Mumbai''"]
    a w
  have d: "distinct (map fst [(''Delhi'', None :: real option), (''Mumbai'', Some 80)])"
    by blast
  have "AQI (reading ''Mumbai'' 1 (Some 80)) \<noteq> None" by (simp add: reading_def)
  with a w d show ?thesis by blast
qed

text \<open>
  C4 as stated fails on that table: Delhi has no reading that is not missing, and the table
  has an entry for Delhi.
\<close>

theorem per_city_entries_counterexample:
  "dropna_vals (map AQI (rows (city_data null_city_view ''Delhi''))) = [] \<and>
   aqi_avg null_city_view = Some [(''Delhi'', None), (''Mumbai'', Some 80)]"
  by (simp add: null_city_view_def table_def cols_def reading_def aqi_avg_def city_data_def
      groupby_City_AQI_mean_def group_keys_def city_mean_def mean_skipna_def)

text \<open>
  C5, as the script has it. The loaded dataset is in non-decreasing order of timestamp,
  every row of it has a city and a timestamp, and its rows are the rows read that have
  both, each as often as it was read. Rows of equal timestamp come in the order numpy's
  quicksort leaves them in, which is not always the order they were read in.
\<close>

theorem load_sorted:
  assumes "load sort_values (Read df) = Inr d"
  shows "sorted_wrt date_le (rows d) \<and>
         (\<forall>r \<in> set (rows d). City r \<noteq> None \<and> Date r \<noteq> None) \<and>
         mset (rows d) = mset (filter (\<lambda>r. City r \<noteq> None \<and> Date r \<noteq> None)
           (map (\<lambda>r. r\<lparr>Date := (if ''Datetime'' \<in> set (columns df) then Datetime r else Date r)\<rparr>)
              (rows df)))"
proof -
  let ?kept = "filter (\<lambda>r. City r \<noteq> None \<and> Date r \<noteq> None)
           (map (\<lambda>r. r\<lparr>Date := (if ''Datetime'' \<in> set (columns df) then Datetime r else Date r)\<rparr>)
              (rows df))"
  from load_Read [OF assms] have r: "rows d = sort_values ?kept" .
  have m: "mset (sort_values ?kept) = mset ?kept" and s: "sorted_wrt date_le (sort_values ?kept)"
    by (rule sort_values_spec)+
  from m have "set (sort_values ?kept) = set ?kept" by (rule mset_eq_setD)
  then have n: "\<forall>r \<in> set (sort_values ?kept). City r \<noteq> None \<and> Date r \<noteq> None" by simp
  show ?thesis unfolding r using s n m by (intro conjI)
qed

text \<open>
  Five rows read out of order, one without a city and one without a date: the two are
  dropped and the other three come out by date.
\<close>

theorem load_sorted_witness:
  "load sort_values (Read (table
       [reading ''Delhi'' 2 (Some 220),
        \<lparr>City = None, Datetime = None, Date = Some 1, AQI = Some 7\<rparr>,
        \<lparr>City = Some ''Pune'', Datetime = None, Date = None, AQI = None\<rparr>,
        reading ''Mumbai'' 1 (Some 80), reading ''Delhi'' 1 (Some 45)]))
     = Inr (table [reading ''Mumbai'' 1 (Some 80), reading ''Delhi'' 1 (Some 45),
                   reading ''Delhi'' 2 (Some 220)]) \<and>
   sorted_wrt date_le [reading ''Mumbai'' 1 (Some 80), reading ''Delhi'' 1 (Some 45),
                       reading ''Delhi'' 2 (Some 220)]"
proof -
  have s: "sort_values [reading ''Delhi'' 2 (Some 220), reading ''Mumbai'' 1 (Some 80),
        reading ''Delhi'' 1 (Some 45)]
      = [reading ''Mumbai'' 1 (Some 80), reading ''Delhi'' 1 (Some 45),
         reading ''Delhi'' 2 (Some 220)]"
    by (simp add: sort_values_def numpy_argsort_def aquicksort.simps insertion_sort_def
        reading_def stamp_def)
  have b: "load sort_values (Read (table
       [reading ''Delhi'' 2 (Some 220),
        \<lparr>City = None, Datetime = None, Date = Some 1, AQI = Some 7\<rparr>,
        \<lparr>City = Some ''Pune'', Datetime = None, Date = None, AQI = None\<rparr>,
        reading ''Mumbai'' 1 (Some 80), reading ''Delhi'' 1 (Some 45)]))
     = Inr (table [reading ''Mumbai'' 1 (Some 80), reading ''Delhi'' 1 (Some 45),
                   reading ''Delhi'' 2 (Some 220)])"
    using s by (simp add: load_def parse_dates_def dropna_def assign_Date_def cols_def
        table_def reading_def)
  from load_sorted [OF b] b show ?thesis by (simp add: table_def)
qed

text \<open>
  C5 as stated fails on eighteen rows of one day: the order they are loaded in is not the
  order they were read in, which is the order a stable sort returns.
\<close>

theorem load_stable_counterexample:
  "load sort_values (Read (table one_day)) \<noteq> Inr (table one_day) \<and>
   load stable_sort_Date (Read (table one_day)) = Inr (table one_day)"
proof -
  let ?out = "[one_day ! 0, one_day ! 15, one_day ! 14, one_day ! 13, one_day ! 12,
       one_day ! 11, one_day ! 10, one_day ! 9, one_day ! 8, one_day ! 7, one_day ! 6,
       one_day ! 5, one_day ! 4, one_day ! 3, one_day ! 2, one_day ! 1, one_day ! 16,
       one_day ! 17]"
  have s: "sort_values one_day = ?out"
    by code_simp
  have d: "?out \<noteq> one_day"
    by (simp add: one_day_def reading_def)
  have l: "load sort_values (Read (table one_day)) = Inr (table (sort_values one_day))"
    by (simp add: load_def parse_dates_def dropna_def assign_Date_def cols_def table_def
        one_day_def reading_def)
  have t: "load stable_sort_Date (Read (table one_day)) = Inr (table one_day)"
    by (simp add: load_def parse_dates_def dropna_def assign_Date_def cols_def table_def
        one_day_def reading_def stable_sort_Date_def date_le_def)
  from l s d have "load sort_values (Read (table one_day)) \<noteq> Inr (table one_day)"
    by (simp add: table_def)
  with t show ?thesis by simp
qed

text \<open>
  C6, as the script has it. On a dataset whose \<^verbatim>\<open>Date\<close> column has no time zone the filter
  returns a table, never an error. That table holds exactly the rows of the dataset, each
  as often as the dataset has it, whose city is one of the selected cities and whose
  timestamp \<open>t\<close> satisfies \<open>s \<le> t \<le> e\<close>, both ends included, and it keeps the columns.
  With no city selected it has no rows, and it has no rows exactly when no row of the
  dataset matches.
\<close>

theorem filtered_df_exact:
  assumes "\<not> Date_tz D"
  shows "\<exists>V. filtered_df D cs s e = Inr V \<and>
     mset (rows V) =
       filter_mset (\<lambda>r. \<exists>c t. City r = Some c \<and> Date r = Some t \<and> c \<in> set cs \<and> s \<le> t \<and> t \<le> e)
         (mset (rows D)) \<and>
     columns V = columns D \<and>
     (cs = [] \<longrightarrow> rows V = []) \<and>
     (rows V = [] \<longleftrightarrow>
        \<not> (\<exists>r \<in> set (rows D). \<exists>c t. City r = Some c \<and> Date r = Some t \<and> c \<in> set cs \<and> s \<le> t \<and> t \<le> e))"
proof -
  let ?V = "D\<lparr>rows := filter (mask_row cs s e) (rows D)\<rparr>"
  have m: "mask_row cs s e =
      (\<lambda>r. \<exists>c t. City r = Some c \<and> Date r = Some t \<and> c \<in> set cs \<and> s \<le> t \<and> t \<le> e)"
    by (rule ext) (rule mask_row_iff)
  have v: "filtered_df D cs s e = Inr ?V"
    using assms by (rule filtered_df_naive)
  have a: "mset (rows ?V) = filter_mset (mask_row cs s e) (mset (rows D))"
    by simp
  have b: "cs = [] \<longrightarrow> rows ?V = []"
    by (simp add: mask_row_iff)
  have c: "rows ?V = [] \<longleftrightarrow> \<not> (\<exists>r \<in> set (rows D). mask_row cs s e r)"
    by (simp add: filter_empty_conv)
  have d: "columns ?V = columns D" by simp
  from v a b c d show ?thesis unfolding m by blast
qed

text \<open>
  On a table of five rows, the dates 2 to 3 with Delhi and Mumbai selected keep the rows
  dated 2 and 3 of these two cities; no city, or a city the table does not have, gives no rows.
\<close>

theorem filtered_df_exact_witness:
  "\<not> Date_tz five_days \<and>
   filtered_df five_days [''Delhi'', ''Mumbai''] 2 3 =
     Inr (table [reading ''Mumbai'' 2 (Some 80), reading ''Delhi'' 3 (Some 220)]) \<and>
   filtered_df five_days [] 2 3 = Inr (table []) \<and>
   filtered_df five_days [''Chennai''] 2 3 = Inr (table [])"
proof -
  have z: "\<not> Date_tz five_days"
    by (simp add: five_days_def table_def)
  have r: "filtered_df five_days [''Delhi'', ''Mumbai''] 2 3 =
     Inr (table [reading ''Mumbai'' 2 (Some 80), reading ''Delhi'' 3 (Some 220)])"
    by (simp add: filtered_df_def mask_def loc_def five_days_def table_def reading_def
        mask_row_def)
  from filtered_df_exact [OF z, of "[]" 2 3]
  obtain V where v: "filtered_df five_days [] 2 3 = Inr V" and e: "rows V = []"
    by blast
  from filtered_df_Inr(2) [OF v] e have "V = table []"
    by (simp add: five_days_def table_def)
  with v have n: "filtered_df five_days [] 2 3 = Inr (table [])" by simp
  have c: "filtered_df five_days [''Chennai''] 2 3 = Inr (table [])"
    by (simp add: filtered_df_def mask_def loc_def five_days_def table_def reading_def
        mask_row_def)
  from z r n c show ?thesis by blast
qed

text \<open>
  C6 as stated fails on a dataset whose timestamps have a time zone. The source below
  loads, its \<^verbatim>\<open>Date\<close> column taking the zone of the \<^verbatim>\<open>Datetime\<close> column, and the filter then
  raises TypeError, also with no city selected and also when no row matches.
\<close>

theorem filtered_df_zoned_counterexample:
  "load sort_values (Read zoned_source) = Inr zoned_dataset \<and>
   filtered_df zoned_dataset [] 1 2 = Inl TypeError \<and>
   filtered_df zoned_dataset [''Mumbai''] 1 2 = Inl TypeError \<and>
   filtered_df zoned_dataset [''Delhi''] 1 2 = Inl TypeError"
  by (simp add: load_def parse_dates_def dropna_def assign_Date_def zoned_source_def
      zoned_dataset_def sort_values_def numpy_argsort_def aquicksort.simps
      insertion_sort_def filtered_df_def mask_def)

text \<open>
  C7. For a reading that is a number \<open>x\<close>, the band is Good when \<open>x \<le> 50\<close>, Moderate when
  \<open>50 < x \<le> 100\<close>, Poor when \<open>100 < x \<le> 200\<close> and Severe when \<open>x > 200\<close>; the six boundary
  readings 50.0, 50.1, 100.0, 100.1, 200.0 and 200.1 fall in Good, Moderate, Moderate,
  Poor, Poor and Severe.
\<close>

theorem classify_bands:
  "(x \<le> 50 \<longrightarrow> classify (Some x) = Good) \<and>
   (50 < x \<and> x \<le> 100 \<longrightarrow> classify (Some x) = Moderate) \<and>
   (100 < x \<and> x \<le> 200 \<longrightarrow> classify (Some x) = Poor) \<and>
   (200 < x \<longrightarrow> classify (Some x) = Severe) \<and>
   classify (Some 50.0) = Good \<and> classify (Some 50.1) = Moderate \<and>
   classify (Some 100.0) = Moderate \<and> classify (Some 100.1) = Poor \<and>
   classify (Some 200.0) = Poor \<and> classify (Some 200.1) = Severe"
  by (simp add: classify_def)

theorem classify_bands_witness:
  "(30::real) \<le> 50 \<and> classify (Some 30) = Good \<and>
   (50::real) < 75 \<and> (75::real) \<le> 100 \<and> classify (Some 75) = Moderate \<and>
   (100::real) < 150 \<and> (150::real) \<le> 200 \<and> classify (Some 150) = Poor \<and>
   (200::real) < 250 \<and> classify (Some 250) = Severe"
  using classify_bands [of 30] classify_bands [of 75] classify_bands [of 150]
    classify_bands [of 250]
  by simp

text \<open>
  C8, as the script has it. Loading ends in \<open>LoadError\<close> exactly when \<^verbatim>\<open>pd.read_csv\<close> raised,
  and the run then stops with no metric, table or alert. A table that was read and has a
  \<^verbatim>\<open>City\<close> column and a \<^verbatim>\<open>Datetime\<close> or \<^verbatim>\<open>Date\<close> column loads without failure,
  whatever its rows.
\<close>

theorem load_error:
  "(load srt src = Inl LoadError \<longleftrightarrow> src = Raised) \<and>
   app srt Raised cs dr = Inl LoadError \<and>
   (''City'' \<in> set (columns df) \<and> (''Datetime'' \<in> set (columns df) \<or> ''Date'' \<in> set (columns df))
      \<longrightarrow> (\<exists>d. load srt (Read df) = Inr d))"
proof (intro conjI impI)
  show "load srt src = Inl LoadError \<longleftrightarrow> src = Raised"
  proof (cases src)
    case Raised
    then show ?thesis by (simp add: load_def)
  next
    case (Read f)
    then show ?thesis
      by (simp add: load_def parse_dates_def dropna_def assign_Date_def)
  qed
next
  show "app srt Raised cs dr = Inl LoadError"
    by (simp add: app_def load_def)
next
  assume "''City'' \<in> set (columns df) \<and>
    (''Datetime'' \<in> set (columns df) \<or> ''Date'' \<in> set (columns df))"
  then show "\<exists>d. load srt (Read df) = Inr d"
    by (cases "''Datetime'' \<in> set (columns df)")
       (auto simp: load_def parse_dates_def dropna_def assign_Date_def)
qed

text \<open>
  The scenario's table has the columns \<^verbatim>\<open>City\<close> and \<^verbatim>\<open>Date\<close> and loads as it is; a read
  that raised gives \<open>LoadError\<close>, from the loader and from the whole run.
\<close>

theorem load_error_witness:
  "''City'' \<in> set (columns scenario) \<and> ''Date'' \<in> set (columns scenario) \<and>
   load sort_values (Read scenario) = Inr scenario \<and>
   load sort_values Raised = Inl LoadError \<and>
   app sort_values Raised [''Delhi''] [1, 2] = Inl LoadError"
proof -
  have c: "''City'' \<in> set (columns scenario) \<and> ''Date'' \<in> set (columns scenario)"
    by (simp add: scenario_def table_def cols_def)
  have l: "load sort_values (Read scenario) = Inr scenario"
    by (simp add: load_def parse_dates_def dropna_def assign_Date_def scenario_def table_def
        cols_def reading_def sort_values_def numpy_argsort_def aquicksort.simps
        insertion_sort_def stamp_def)
  from load_error [of sort_values Raised "[''Delhi'']" "[1, 2]" scenario] c l
  show ?thesis by simp
qed

text \<open>
  C8 as stated fails: a source with a header and no rows is read into a table without
  rows, and loading it succeeds.
\<close>

theorem load_no_rows_counterexample:
  "load sort_values (Read (table [])) = Inr (table []) \<and>
   load sort_values (Read (table [])) \<noteq> Inl LoadError"
  by (simp add: load_def parse_dates_def dropna_def assign_Date_def cols_def table_def
      sort_values_def numpy_argsort_def aquicksort.simps insertion_sort_def)

text \<open>
  C9. Filtering is idempotent: the filter applied with the same cities and the same two
  bounds to its own output returns that output; where the first filter raises there is no
  output, and the error is what both sides are.
\<close>

theorem filtered_df_idem:
  "(case filtered_df D cs s e of Inl err \<Rightarrow> Inl err | Inr V \<Rightarrow> filtered_df V cs s e) =
     filtered_df D cs s e"
proof (cases "Date_tz D")
  case True
  then show ?thesis by (simp add: filtered_df_zoned)
next
  case False
  let ?V = "D\<lparr>rows := filter (mask_row cs s e) (rows D)\<rparr>"
  from False have n: "\<not> Date_tz ?V" by simp
  from filtered_df_naive [OF False, of cs s e] filtered_df_naive [OF n, of cs s e]
  show ?thesis by simp
qed

text \<open>
  C10. The rows of the filtered view are a subsequence of the rows of the dataset, in the
  same order, and when the dataset is in ascending order of timestamp so is the view. The
  rows the alert loop takes for a city are the rows of the view that belong to that city,
  in the order of the view. When the loop shows a banner for the city, the reading and
  the band are those of the last row of the view that belongs to the city: no later row of
  the view is a row of that city, and in a dataset in ascending order no row of the city in
  the view has a later timestamp.
\<close>

theorem filtered_df_order:
  assumes "filtered_df D cs s e = Inr V"
  shows "subseq (rows V) (rows D) \<and>
     (sorted_wrt date_le (rows D) \<longrightarrow> sorted_wrt date_le (rows V)) \<and>
     subseq (rows (city_data V c)) (rows V) \<and>
     set (rows (city_data V c)) = {r \<in> set (rows V). City r = Some c} \<and>
     (alert_for V c = Banner lvl a \<longrightarrow>
        (\<exists>pre r post. rows V = pre @ r # post \<and> City r = Some c \<and> AQI r = a \<and>
           lvl = classify (AQI r) \<and> r = last (rows (city_data V c)) \<and>
           (\<forall>x \<in> set post. City x \<noteq> Some c) \<and>
           (sorted_wrt date_le (rows D) \<longrightarrow>
              (\<forall>x \<in> set (rows V). City x = Some c \<longrightarrow> date_le x r))))"
proof (intro conjI impI)
  from filtered_df_Inr(2) [OF assms]
  have V: "rows V = filter (mask_row cs s e) (rows D)" by simp
  show "subseq (rows V) (rows D)"
    by (simp add: V)
  show "sorted_wrt date_le (rows V)" if "sorted_wrt date_le (rows D)"
    using that by (simp add: V sorted_wrt_filter)
  have cd: "rows (city_data V c) = filter (\<lambda>r. City r = Some c) (rows V)"
    by (simp add: city_data_def)
  show "subseq (rows (city_data V c)) (rows V)"
    by (simp add: cd)
  show "set (rows (city_data V c)) = {r \<in> set (rows V). City r = Some c}"
    by (simp add: cd)
  show "\<exists>pre r post. rows V = pre @ r # post \<and> City r = Some c \<and> AQI r = a \<and>
           lvl = classify (AQI r) \<and> r = last (rows (city_data V c)) \<and>
           (\<forall>x \<in> set post. City x \<noteq> Some c) \<and>
           (sorted_wrt date_le (rows D) \<longrightarrow>
              (\<forall>x \<in> set (rows V). City x = Some c \<longrightarrow> date_le x r))"
    if b: "alert_for V c = Banner lvl a"
  proof -
    let ?rs = "filter (\<lambda>r. City r = Some c) (rows V)"
    from b have ne: "dropna_vals (map AQI ?rs) \<noteq> []" and a: "a = last (map AQI ?rs)"
      and l: "lvl = classify (last (map AQI ?rs))"
      by (auto simp: alert_for_def cd Let_def split: if_splits)
    from ne have ne': "?rs \<noteq> []" by auto
    then have "\<exists>x \<in> set (rows V). City x = Some c"
      by (simp add: filter_empty_conv)
    from split_list_last_prop [OF this]
    obtain pre r post where sp: "rows V = pre @ r # post" and cr: "City r = Some c"
      and post: "\<forall>x \<in> set post. City x \<noteq> Some c"
      by blast
    from post have "filter (\<lambda>r. City r = Some c) post = []"
      by (simp add: filter_empty_conv)
    with sp cr have rs: "?rs = filter (\<lambda>r. City r = Some c) pre @ [r]" by simp
    then have lr: "last ?rs = r" by simp
    from a ne' lr have ar: "AQI r = a" by (simp add: last_map)
    from l ne' lr have lv: "lvl = classify (AQI r)" by (simp add: last_map)
    have late: "\<forall>x \<in> set (rows V). City x = Some c \<longrightarrow> date_le x r"
      if s: "sorted_wrt date_le (rows D)"
    proof -
      from s have sv: "sorted_wrt date_le (rows V)" by (simp add: V sorted_wrt_filter)
      have "date_le x (last ?rs)" if "x \<in> set ?rs" for x
        using sv date_le_refl that by (rule sorted_wrt_filter_last)
      with lr show ?thesis by simp
    qed
    from sp cr ar lv lr post late show ?thesis unfolding cd by blast
  qed
qed

text \<open>
  The three rows of the scenario are in ascending order of date. With both cities selected
  over both days the view is the scenario itself. Mumbai's only row stands between Delhi's
  two rows: Mumbai's banner shows Mumbai's 80, and Delhi's banner shows the 220 of Delhi's
  later row.
\<close>

theorem filtered_df_order_witness:
  "filtered_df scenario [''Delhi'', ''Mumbai''] 1 2 = Inr scenario \<and>
   sorted_wrt date_le (rows scenario) \<and>
   rows (city_data scenario ''Mumbai'') = [reading ''Mumbai'' 1 (Some 80)] \<and>
   rows (city_data scenario ''Delhi'') =
     [reading ''Delhi'' 1 (Some 45), reading ''Delhi'' 2 (Some 220)] \<and>
   alert_for scenario ''Mumbai'' = Banner Moderate (Some 80) \<and>
   alert_for scenario ''Delhi'' = Banner Severe (Some 220) \<and>
   AQI (last (rows (city_data scenario ''Mumbai''))) = Some 80 \<and>
   AQI (last (rows (city_data scenario ''Delhi''))) = Some 220"
proof -
  have f: "filtered_df scenario [''Delhi'', ''Mumbai''] 1 2 = Inr scenario"
    by (simp add: filtered_df_def mask_def loc_def scenario_def table_def reading_def
        mask_row_def)
  have s: "sorted_wrt date_le (rows scenario)"
    by (simp add: scenario_def table_def reading_def date_le_def)
  have m: "rows (city_data scenario ''Mumbai'') = [reading ''Mumbai'' 1 (Some 80)]"
    by (simp add: city_data_def scenario_def table_def reading_def)
  have d: "rows (city_data scenario ''Delhi'') =
     [reading ''Delhi'' 1 (Some 45), reading ''Delhi'' 2 (Some 220)]"
    by (simp add: city_data_def scenario_def table_def reading_def)
  have bm: "alert_for scenario ''Mumbai'' = Banner Moderate (Some 80)"
    by (simp add: alert_for_def m Let_def) (simp add: scenario_def table_def cols_def
        reading_def classify_def)
  have bd: "alert_for scenario ''Delhi'' = Banner Severe (Some 220)"
    by (simp add: alert_for_def d Let_def) (simp add: scenario_def table_def cols_def
        reading_def classify_def)
  from filtered_df_order [OF f, of "''Mumbai''" Moderate "Some 80"] bm
  obtain r where "AQI r = Some 80" and "r = last (rows (city_data scenario ''Mumbai''))"
    by blast
  then have lm: "AQI (last (rows (city_data scenario ''Mumbai''))) = Some 80" by simp
  from filtered_df_order [OF f, of "''Delhi''" Severe "Some 220"] bd
  obtain r' where "AQI r' = Some 220" and "r' = last (rows (city_data scenario ''Delhi''))"
    by blast
  then have ld: "AQI (last (rows (city_data scenario ''Delhi''))) = Some 220" by simp
  from f s m d bm bd lm ld show ?thesis by blast
qed

end
